theory Spec2Isabelle
  imports Complex_Main "HOL-Library.AList"
begin

section \<open>Step correlation resolver (handleGraphNodeClick)\<close>

text \<open>
  The step list entries, as the interface \<^verbatim>\<open>StudentStepAnalysis\<close> declares them. The
  resolver reads \<^verbatim>\<open>step_id\<close> only.
\<close>

datatype evaluation = CORRECT | PARTIALLY_CORRECT | INCORRECT | MISSING_KEY_STEP

record StudentStepAnalysis =
  step_id :: string
  math_latex :: string
  explanation :: string
  evaluation :: evaluation
  feedback :: string

text \<open>
  \<^verbatim>\<open>str.match(/\d+/)\<close>: the first maximal run of the digits 0 to 9, the empty list standing
  for the \<^verbatim>\<open>null\<close> of a string without digits.
\<close>

definition is_digit :: "char \<Rightarrow> bool" where
  "is_digit c = (48 \<le> (of_char c :: nat) \<and> (of_char c :: nat) \<le> 57)"

definition first_digit_run :: "string \<Rightarrow> string" where
  "first_digit_run str = takeWhile is_digit (dropWhile (\<lambda>c. \<not> is_digit c) str)"

text \<open>
  A JavaScript Number whose value is an integer or \<^verbatim>\<open>Infinity\<close>; these are the values
  \<^verbatim>\<open>parseInt\<close> returns on a run of digits, and -1.
\<close>

datatype js_number = Finite int | PosInfinity

text \<open>
  The Number value of a non-negative integer: the nearest double, ties to the even significand,
  \<^verbatim>\<open>Infinity\<close> from \<open>2 ^ 1024\<close> on. Below \<open>2 ^ 53\<close> every such integer is a double; above,
  the bits after the first 53 are rounded away.
\<close>

function bit_length :: "int \<Rightarrow> nat" where
  "bit_length n = (if n \<le> 0 then 0 else Suc (bit_length (n div 2)))"
  by pat_completeness auto

termination bit_length
  by (relation "measure nat") auto

declare bit_length.simps [simp del]

definition round_to_double :: "int \<Rightarrow> js_number" where
  "round_to_double n =
     (if n < 2 ^ 53 then Finite n
      else
        (let e = bit_length n - 53;
             q = n div 2 ^ e;
             r = n mod 2 ^ e;
             half = 2 ^ (e - 1);
             m = (if half < r \<or> (r = half \<and> odd q) then q + 1 else q)
         in if 2 ^ 1024 \<le> m * 2 ^ e then PosInfinity else Finite (m * 2 ^ e)))"

text \<open>
  \<^verbatim>\<open>parseInt(digits, 10)\<close> on a run of digits: the Number value of the decimal numeral, as
  the engines compute it. (The language specification also lets an engine replace the digits
  after the twentieth by zeros; that option is not modelled.)
\<close>

definition decimal_value :: "string \<Rightarrow> int" where
  "decimal_value ds = foldl (\<lambda>acc c. 10 * acc + (int (of_char c) - 48)) 0 ds"

definition parseInt10 :: "string \<Rightarrow> js_number" where
  "parseInt10 ds = round_to_double (decimal_value ds)"

definition getNum :: "string \<Rightarrow> js_number" where
  "getNum str = (let m = first_digit_run str in if m = [] then Finite (- 1) else parseInt10 m)"

text \<open>\<^verbatim>\<open>Array.prototype.findIndex\<close>: the index of the first element satisfying the predicate, or -1.\<close>

fun findIndex_from :: "int \<Rightarrow> ('a \<Rightarrow> bool) \<Rightarrow> 'a list \<Rightarrow> int" where
  "findIndex_from i p [] = - 1"
| "findIndex_from i p (x # xs) = (if p x then i else findIndex_from (i + 1) p xs)"

definition findIndex :: "('a \<Rightarrow> bool) \<Rightarrow> 'a list \<Rightarrow> int" where
  "findIndex p xs = findIndex_from 0 p xs"

text \<open>
  The handler. Its first argument is \<^verbatim>\<open>result?.parsedData?.student_analysis\<close> (\<open>None\<close> when
  any link of that chain is missing), its second the \<^verbatim>\<open>id\<close> of the clicked node (\<open>None\<close> when
  the node or its id is missing, as for the \<^verbatim>\<open>{}\<close> the background click passes). The result is
  the value handed to \<^verbatim>\<open>setFocusedStepIndex\<close>: \<open>None\<close> for \<^verbatim>\<open>null\<close>. The test
  \<^verbatim>\<open>nodeIdNum > 0 && nodeIdNum <= length\<close> is false for \<^verbatim>\<open>Infinity\<close>.
\<close>

definition handleGraphNodeClick :: "StudentStepAnalysis list option \<Rightarrow> string option \<Rightarrow> int option" where
  "handleGraphNodeClick student_analysis node_id =
     (case node_id of
        None \<Rightarrow> None
      | Some nid \<Rightarrow>
          if nid = [] then None
          else
            (case student_analysis of
               None \<Rightarrow> None
             | Some steps \<Rightarrow>
                 (let nodeIdNum = getNum nid;
                      index1 = findIndex (\<lambda>s. getNum (step_id s) = nodeIdNum) steps;
                      index2 = (if index1 = - 1 then findIndex (\<lambda>s. step_id s = nid) steps else index1);
                      index3 = (if index2 = - 1
                                then (case nodeIdNum of
                                        Finite n \<Rightarrow>
                                          if n > 0 \<and> n \<le> int (length steps) then n - 1 else index2
                                      | PosInfinity \<Rightarrow> index2)
                                else index2)
                  in if index3 \<noteq> - 1 then Some index3 else None)))"

text \<open>A step with the given identifier and empty remaining fields, for concrete step lists.\<close>

definition step :: "string \<Rightarrow> StudentStepAnalysis" where
  "step sid = \<lparr>step_id = sid, math_latex = [], explanation = [], evaluation = CORRECT, feedback = []\<rparr>"

text \<open>
  The matching policy as the specification words it, for comparison with the handler: the
  numeric rule matches only when exactly one step shares the node's number, then the exact
  string match, then the positional fallback.
\<close>

definition resolver_spec :: "StudentStepAnalysis list \<Rightarrow> string \<Rightarrow> int option" where
  "resolver_spec steps nid =
     (let n = getNum nid;
          hits = filter (\<lambda>i. getNum (step_id (steps ! i)) = n) [0..<length steps];
          exact = findIndex (\<lambda>s. step_id s = nid) steps
      in if length hits = 1 then Some (int (hd hits))
         else if exact \<noteq> - 1 then Some exact
         else (case n of
                 Finite k \<Rightarrow> if 0 < k \<and> k \<le> int (length steps) then Some (k - 1) else None
               | PosInfinity \<Rightarrow> None))"

lemma step_id_step: "step_id (step sid) = sid"
  by (simp add: step_def)

lemma findIndex_from_none: "(\<forall>x\<in>set xs. \<not> p x) \<Longrightarrow> findIndex_from i p xs = - 1"
  by (induction xs arbitrary: i) auto

lemma findIndex_from_some:
  "\<exists>x\<in>set xs. p x \<Longrightarrow> findIndex_from i p xs = i + int (length (takeWhile (\<lambda>x. \<not> p x) xs))"
proof (induction xs arbitrary: i)
  case Nil
  then show ?case by simp
next
  case (Cons a xs)
  show ?case
  proof (cases "p a")
    case True
    then show ?thesis by simp
  next
    case False
    with Cons.prems have "\<exists>x\<in>set xs. p x" by auto
    from Cons.IH [OF this, of "i + 1"] False show ?thesis by simp
  qed
qed

lemma findIndex_none: "(\<forall>x\<in>set xs. \<not> p x) \<Longrightarrow> findIndex p xs = - 1"
  by (simp add: findIndex_def findIndex_from_none)

lemma findIndex_some:
  "\<exists>x\<in>set xs. p x \<Longrightarrow> findIndex p xs = int (length (takeWhile (\<lambda>x. \<not> p x) xs))"
  by (simp add: findIndex_def findIndex_from_some)

lemma findIndex_some_nonneg: "\<exists>x\<in>set xs. p x \<Longrightarrow> findIndex p xs \<noteq> - 1"
  by (simp add: findIndex_some)

lemma getNum_no_digit: "\<forall>c\<in>set str. \<not> is_digit c \<Longrightarrow> getNum str = Finite (- 1)"
proof -
  assume "\<forall>c\<in>set str. \<not> is_digit c"
  then have dw: "dropWhile (\<lambda>c. \<not> is_digit c) str = []"
    by simp
  show ?thesis
    unfolding getNum_def first_digit_run_def dw by simp
qed

lemma decimal_value_foldl_nonneg:
  "0 \<le> a \<Longrightarrow> \<forall>c\<in>set ds. is_digit c \<Longrightarrow>
   0 \<le> foldl (\<lambda>acc c. 10 * acc + (int (of_char c) - 48)) a ds"
proof (induction ds arbitrary: a)
  case Nil
  then show ?case by simp
next
  case (Cons d ds)
  from Cons.prems have "0 \<le> 10 * a + (int (of_char d) - 48)"
    by (simp add: is_digit_def)
  with Cons show ?case by simp
qed

lemma round_to_double_not_minus_one: "0 \<le> n \<Longrightarrow> round_to_double n \<noteq> Finite (- 1)"
proof -
  assume n: "0 \<le> n"
  define e where "e = bit_length n - 53"
  define q where "q = n div 2 ^ e"
  define m where "m = (if 2 ^ (e - 1) < n mod 2 ^ e \<or> (n mod 2 ^ e = 2 ^ (e - 1) \<and> odd q)
    then q + 1 else q)"
  from n have "0 \<le> q"
    by (simp add: q_def pos_imp_zdiv_nonneg_iff)
  then have "0 \<le> m"
    by (simp add: m_def)
  then have "0 \<le> m * 2 ^ e"
    by simp
  then have ne: "m * 2 ^ e \<noteq> - 1"
    by linarith
  have eq: "round_to_double n =
      (if n < 2 ^ 53 then Finite n
       else if 2 ^ 1024 \<le> m * 2 ^ e then PosInfinity else Finite (m * 2 ^ e))"
    unfolding round_to_double_def Let_def m_def q_def e_def by (rule refl)
  show ?thesis
  proof (cases "n < 2 ^ 53")
    case True
    with n eq show ?thesis by auto
  next
    case False
    with ne eq show ?thesis
      by (cases "2 ^ 1024 \<le> m * 2 ^ e") simp_all
  qed
qed

lemma first_digit_run_nonempty: "\<exists>c\<in>set str. is_digit c \<Longrightarrow> first_digit_run str \<noteq> []"
proof -
  assume ex: "\<exists>c\<in>set str. is_digit c"
  then have ne: "dropWhile (\<lambda>c. \<not> is_digit c) str \<noteq> []"
    by simp
  then have "is_digit (hd (dropWhile (\<lambda>c. \<not> is_digit c) str))"
    using hd_dropWhile [of "\<lambda>c. \<not> is_digit c" str] by simp
  with ne show "first_digit_run str \<noteq> []"
    by (cases "dropWhile (\<lambda>c. \<not> is_digit c) str") (simp_all add: first_digit_run_def)
qed

lemma getNum_digit: "\<exists>c\<in>set str. is_digit c \<Longrightarrow> getNum str \<noteq> Finite (- 1)"
proof -
  assume ex: "\<exists>c\<in>set str. is_digit c"
  then have run: "first_digit_run str \<noteq> []"
    by (rule first_digit_run_nonempty)
  have "\<forall>c\<in>set (first_digit_run str). is_digit c"
    by (auto simp: first_digit_run_def dest: set_takeWhileD)
  then have "0 \<le> decimal_value (first_digit_run str)"
    unfolding decimal_value_def by (intro decimal_value_foldl_nonneg) simp_all
  then have "round_to_double (decimal_value (first_digit_run str)) \<noteq> Finite (- 1)"
    by (rule round_to_double_not_minus_one)
  with run show ?thesis
    by (simp add: getNum_def parseInt10_def)
qed

lemma getNum_minus_one_iff: "getNum str = Finite (- 1) \<longleftrightarrow> (\<forall>c\<in>set str. \<not> is_digit c)"
  using getNum_no_digit [of str] getNum_digit [of str] by blast

lemma first_digit_run_embedded:
  assumes "\<forall>c\<in>set pre. \<not> is_digit c" and "ds \<noteq> []" and "\<forall>c\<in>set ds. is_digit c"
    and "post = [] \<or> \<not> is_digit (hd post)"
  shows "first_digit_run (pre @ ds @ post) = ds"
proof -
  from assms(1) have "dropWhile (\<lambda>c. \<not> is_digit c) (pre @ ds @ post) =
      dropWhile (\<lambda>c. \<not> is_digit c) (ds @ post)"
    by (simp add: dropWhile_append)
  also have "takeWhile is_digit (dropWhile (\<lambda>c. \<not> is_digit c) (ds @ post)) = ds"
  proof -
    from assms(2,3) have "dropWhile (\<lambda>c. \<not> is_digit c) (ds @ post) = ds @ post"
      by (cases ds) simp_all
    moreover from assms(3,4) have "takeWhile is_digit (ds @ post) = ds"
      by (cases post) (simp_all add: takeWhile_append)
    ultimately show ?thesis by simp
  qed
  finally show ?thesis
    by (simp add: first_digit_run_def)
qed

lemma getNum_embedded:
  assumes "\<forall>c\<in>set pre. \<not> is_digit c" and "ds \<noteq> []" and "\<forall>c\<in>set ds. is_digit c"
    and "post = [] \<or> \<not> is_digit (hd post)"
  shows "getNum (pre @ ds @ post) = parseInt10 ds"
  using first_digit_run_embedded [OF assms] assms(2)
  by (simp add: getNum_def)

lemma parseInt10_exact: "decimal_value ds < 2 ^ 53 \<Longrightarrow> parseInt10 ds = Finite (decimal_value ds)"
  by (simp add: parseInt10_def round_to_double_def)

lemmas resolver_eval =
  handleGraphNodeClick_def resolver_spec_def findIndex_def step_def getNum_def
  first_digit_run_def is_digit_def parseInt10_def decimal_value_def round_to_double_def Let_def

lemma resolver_numeric_or_positional:
  "nid \<noteq> [] \<Longrightarrow>
   handleGraphNodeClick (Some steps) (Some nid) =
     (if \<exists>s\<in>set steps. getNum (step_id s) = getNum nid
      then Some (int (length (takeWhile (\<lambda>s. getNum (step_id s) \<noteq> getNum nid) steps)))
      else (case getNum nid of
              Finite n \<Rightarrow> if 0 < n \<and> n \<le> int (length steps) then Some (n - 1) else None
            | PosInfinity \<Rightarrow> None))"
proof (cases "\<exists>s\<in>set steps. getNum (step_id s) = getNum nid")
  case True
  assume ne: "nid \<noteq> []"
  from True have "findIndex (\<lambda>s. getNum (step_id s) = getNum nid) steps =
      int (length (takeWhile (\<lambda>s. getNum (step_id s) \<noteq> getNum nid) steps))"
    by (rule findIndex_some)
  with True ne show ?thesis
    by (simp add: handleGraphNodeClick_def Let_def)
next
  case False
  assume ne: "nid \<noteq> []"
  from False have n1: "findIndex (\<lambda>s. getNum (step_id s) = getNum nid) steps = - 1"
    by (intro findIndex_none) simp
  from False have "\<forall>s\<in>set steps. step_id s \<noteq> nid"
    by auto
  then have n2: "findIndex (\<lambda>s. step_id s = nid) steps = - 1"
    by (intro findIndex_none) simp
  show ?thesis
  proof (cases "getNum nid")
    case (Finite n)
    with False ne n1 n2 show ?thesis
      by (simp add: handleGraphNodeClick_def Let_def)
  next
    case PosInfinity
    with False ne n1 n2 show ?thesis
      by (simp add: handleGraphNodeClick_def Let_def)
  qed
qed

lemma length_takeWhile_first:
  assumes "i < length xs" "\<not> P (xs ! i)" "\<forall>j<i. P (xs ! j)"
  shows "length (takeWhile P xs) = i"
proof -
  have "takeWhile P xs = take i xs"
    using assms by (intro takeWhile_eq_take_P_nth) auto
  with assms(1) show ?thesis by simp
qed

lemma length_takeWhile_le_hit:
  assumes "j < length xs" "\<not> P (xs ! j)"
  shows "length (takeWhile P xs) \<le> j"
proof (rule ccontr)
  assume "\<not> length (takeWhile P xs) \<le> j"
  then have lt: "j < length (takeWhile P xs)"
    by simp
  then have "takeWhile P xs ! j = xs ! j"
    by (rule takeWhile_nth)
  moreover from lt have "takeWhile P xs ! j \<in> set (takeWhile P xs)"
    by simp
  ultimately have "P (xs ! j)"
    by (auto dest: set_takeWhileD)
  with assms(2) show False by simp
qed

lemma resolver_exact_position:
  assumes ne: "nid \<noteq> []" and i: "i < length steps" and ex: "step_id (steps ! i) = nid"
    and first: "\<forall>j<i. getNum (step_id (steps ! j)) \<noteq> getNum nid"
  shows "handleGraphNodeClick (Some steps) (Some nid) = Some (int i)"
proof -
  from i have "steps ! i \<in> set steps"
    by simp
  with ex have hit: "\<exists>s\<in>set steps. getNum (step_id s) = getNum nid"
    by blast
  have "length (takeWhile (\<lambda>s. getNum (step_id s) \<noteq> getNum nid) steps) = i"
    using i ex first by (intro length_takeWhile_first) auto
  with hit resolver_numeric_or_positional [OF ne, of steps] show ?thesis
    by simp
qed

lemma resolver_earlier_coincidence:
  assumes ne: "nid \<noteq> []" and i: "i < length steps" and j: "j < i"
    and co: "getNum (step_id (steps ! j)) = getNum nid"
  shows "\<exists>k\<le>j. handleGraphNodeClick (Some steps) (Some nid) = Some (int k)"
proof -
  from i j have "steps ! j \<in> set steps"
    by simp
  with co have hit: "\<exists>s\<in>set steps. getNum (step_id s) = getNum nid"
    by blast
  have "length (takeWhile (\<lambda>s. getNum (step_id s) \<noteq> getNum nid) steps) \<le> j"
    using i j co by (intro length_takeWhile_le_hit) auto
  with hit resolver_numeric_or_positional [OF ne, of steps] show ?thesis
    by simp
qed

text \<open>
  Claim C2, as the code has it, for a node id that contains a digit. The number of an
  identifier is that of its first run of digits, read as \<^verbatim>\<open>parseInt\<close> reads it (a double:
  the decimal value when that is below \<open>2 ^ 53\<close>).
  The handler returns the first step (lowest index) whose number equals the node's, however
  many steps share it; only when no step shares it does the node's number serve as a 1-based
  position. A step whose identifier equals the node id at position \<open>i\<close> is selected when no
  earlier step has the same number, and an earlier step \<open>j\<close> with the same number makes the
  handler select an index of at most \<open>j\<close> instead.
\<close>

theorem resolver_rules:
  "((\<forall>c\<in>set pre. \<not> is_digit c) \<and> ds \<noteq> [] \<and> (\<forall>c\<in>set ds. is_digit c) \<and>
    (post = [] \<or> \<not> is_digit (hd post)) \<longrightarrow>
      first_digit_run (pre @ ds @ post) = ds \<and>
      getNum (pre @ ds @ post) = parseInt10 ds \<and>
      (decimal_value ds < 2 ^ 53 \<longrightarrow> getNum (pre @ ds @ post) = Finite (decimal_value ds))) \<and>
   ((\<exists>c\<in>set nid. is_digit c) \<longrightarrow>
      handleGraphNodeClick (Some steps) (Some nid) =
        (if \<exists>s\<in>set steps. getNum (step_id s) = getNum nid
         then Some (int (length (takeWhile (\<lambda>s. getNum (step_id s) \<noteq> getNum nid) steps)))
         else (case getNum nid of
                 Finite n \<Rightarrow> if 0 < n \<and> n \<le> int (length steps) then Some (n - 1) else None
               | PosInfinity \<Rightarrow> None)) \<and>
      (i < length steps \<and> step_id (steps ! i) = nid \<and>
       (\<forall>j<i. getNum (step_id (steps ! j)) \<noteq> getNum nid) \<longrightarrow>
         handleGraphNodeClick (Some steps) (Some nid) = Some (int i)) \<and>
      (i < length steps \<and> j < i \<and> getNum (step_id (steps ! j)) = getNum nid \<longrightarrow>
         (\<exists>k\<le>j. handleGraphNodeClick (Some steps) (Some nid) = Some (int k))))"
proof (intro conjI impI)
  assume a: "(\<forall>c\<in>set pre. \<not> is_digit c) \<and> ds \<noteq> [] \<and> (\<forall>c\<in>set ds. is_digit c) \<and>
    (post = [] \<or> \<not> is_digit (hd post))"
  then show "first_digit_run (pre @ ds @ post) = ds"
    by (intro first_digit_run_embedded) simp_all
  from a show g: "getNum (pre @ ds @ post) = parseInt10 ds"
    by (intro getNum_embedded) simp_all
  show "getNum (pre @ ds @ post) = Finite (decimal_value ds)" if "decimal_value ds < 2 ^ 53"
    using that g by (simp add: parseInt10_exact)
next
  assume "\<exists>c\<in>set nid. is_digit c"
  then have ne: "nid \<noteq> []" by auto
  then show "handleGraphNodeClick (Some steps) (Some nid) =
        (if \<exists>s\<in>set steps. getNum (step_id s) = getNum nid
         then Some (int (length (takeWhile (\<lambda>s. getNum (step_id s) \<noteq> getNum nid) steps)))
         else (case getNum nid of
                 Finite n \<Rightarrow> if 0 < n \<and> n \<le> int (length steps) then Some (n - 1) else None
               | PosInfinity \<Rightarrow> None))"
    by (rule resolver_numeric_or_positional)
next
  assume "\<exists>c\<in>set nid. is_digit c"
    and "i < length steps \<and> step_id (steps ! i) = nid \<and>
       (\<forall>j<i. getNum (step_id (steps ! j)) \<noteq> getNum nid)"
  then show "handleGraphNodeClick (Some steps) (Some nid) = Some (int i)"
    by (intro resolver_exact_position) auto
next
  assume "\<exists>c\<in>set nid. is_digit c"
    and "i < length steps \<and> j < i \<and> getNum (step_id (steps ! j)) = getNum nid"
  then show "\<exists>k\<le>j. handleGraphNodeClick (Some steps) (Some nid) = Some (int k)"
    by (intro resolver_earlier_coincidence [of nid i]) auto
qed

text \<open>
  Witness for C2: the number of \<^verbatim>\<open>step007b12\<close> is 7; with \<^verbatim>\<open>step3\<close> at position 2 and the
  only other 3 after it, index 2 is selected; with \<^verbatim>\<open>x3\<close> at position 0, index 0 is; and the
  digit runs 9007199254740992 and 9007199254740993 are the same double, so the first step is
  selected.
\<close>

theorem resolver_rules_witness:
  "getNum ''step007b12'' = Finite 7 \<and>
   handleGraphNodeClick (Some [step ''s1'', step ''note'', step ''step3'', step ''c3'']) (Some ''step3'') = Some 2 \<and>
   (\<exists>k\<le>0. handleGraphNodeClick (Some [step ''x3'', step ''b'', step ''step3'']) (Some ''step3'') = Some (int k)) \<and>
   handleGraphNodeClick (Some [step ''s9007199254740992'']) (Some ''n9007199254740993'') = Some 0"
proof -
  have d: "\<exists>c\<in>set ''step3''. is_digit c"
    by (simp add: is_digit_def)
  have 1: "getNum ''step007b12'' = Finite 7"
    using resolver_rules [of "''step''" "''007''" "''b12''" "[]" "[]" 0 0]
    by (auto simp add: is_digit_def decimal_value_def)
  have 2: "handleGraphNodeClick (Some [step ''s1'', step ''note'', step ''step3'', step ''c3'']) (Some ''step3'') = Some 2"
    using d resolver_rules [of "[]" "[]" "[]" "''step3''" "[step ''s1'', step ''note'', step ''step3'', step ''c3'']" 2 0]
    by (simp add: nth_Cons' less_Suc_eq step_def getNum_def first_digit_run_def is_digit_def
        parseInt10_def decimal_value_def round_to_double_def)
  have 3: "\<exists>k\<le>0. handleGraphNodeClick (Some [step ''x3'', step ''b'', step ''step3'']) (Some ''step3'') = Some (int k)"
    using d resolver_rules [of "[]" "[]" "[]" "''step3''" "[step ''x3'', step ''b'', step ''step3'']" 2 0]
    by (simp add: nth_Cons' less_Suc_eq step_def getNum_def first_digit_run_def is_digit_def
        parseInt10_def decimal_value_def round_to_double_def)
  have 4: "handleGraphNodeClick (Some [step ''s9007199254740992'']) (Some ''n9007199254740993'') = Some 0"
    by code_simp
  from 1 2 3 4 show ?thesis by blast
qed

text \<open>
  Counterexample to C2 as stated: with \<^verbatim>\<open>step3\<close> at position 2 and \<^verbatim>\<open>x3\<close> at position 0 the
  handler selects 0 where the stated policy selects 2; with two steps numbered 7 it selects the
  first where the stated policy finds no match.
\<close>

theorem resolver_first_numeric_match_counterexample:
  "step_id ([step ''x3'', step ''b'', step ''step3''] ! 2) = ''step3'' \<and>
   handleGraphNodeClick (Some [step ''x3'', step ''b'', step ''step3'']) (Some ''step3'') = Some 0 \<and>
   resolver_spec [step ''x3'', step ''b'', step ''step3''] ''step3'' = Some 2 \<and>
   handleGraphNodeClick (Some [step ''a7'', step ''b7'']) (Some ''n7'') = Some 0 \<and>
   resolver_spec [step ''a7'', step ''b7''] ''n7'' = None"
  by code_simp

text \<open>
  Claim C8: a node id whose number matches no step (as Numbers, the way the code compares
  them), that equals no step identifier and is not a 1-based position in the list yields no
  match (the handler passes \<^verbatim>\<open>null\<close>); an id without any digit has the number -1 and yields no
  match when every step identifier has a digit. The handler is a total function with no
  failing branch.
\<close>

theorem resolver_no_match:
  "(nid \<noteq> [] \<and> (\<forall>s\<in>set steps. getNum (step_id s) \<noteq> getNum nid) \<and>
    (\<forall>s\<in>set steps. step_id s \<noteq> nid) \<and>
    \<not> (\<exists>n. getNum nid = Finite n \<and> 0 < n \<and> n \<le> int (length steps)) \<longrightarrow>
      handleGraphNodeClick (Some steps) (Some nid) = None) \<and>
   ((\<forall>c\<in>set nid. \<not> is_digit c) \<and> (\<forall>s\<in>set steps. \<exists>c\<in>set (step_id s). is_digit c) \<longrightarrow>
      getNum nid = Finite (- 1) \<and> handleGraphNodeClick (Some steps) (Some nid) = None)"
proof (intro conjI impI)
  assume a: "nid \<noteq> [] \<and> (\<forall>s\<in>set steps. getNum (step_id s) \<noteq> getNum nid) \<and>
    (\<forall>s\<in>set steps. step_id s \<noteq> nid) \<and>
    \<not> (\<exists>n. getNum nid = Finite n \<and> 0 < n \<and> n \<le> int (length steps))"
  then show "handleGraphNodeClick (Some steps) (Some nid) = None"
    using resolver_numeric_or_positional [of nid steps]
    by (cases "getNum nid") auto
next
  assume b: "(\<forall>c\<in>set nid. \<not> is_digit c) \<and> (\<forall>s\<in>set steps. \<exists>c\<in>set (step_id s). is_digit c)"
  then show "getNum nid = Finite (- 1)"
    by (simp add: getNum_no_digit)
next
  assume b: "(\<forall>c\<in>set nid. \<not> is_digit c) \<and> (\<forall>s\<in>set steps. \<exists>c\<in>set (step_id s). is_digit c)"
  then have n: "getNum nid = Finite (- 1)"
    by (simp add: getNum_no_digit)
  from b have "\<forall>s\<in>set steps. getNum (step_id s) \<noteq> Finite (- 1)"
    by (simp add: getNum_minus_one_iff)
  with n show "handleGraphNodeClick (Some steps) (Some nid) = None"
    using resolver_numeric_or_positional [of nid steps]
    by (cases "nid = []") (auto simp: handleGraphNodeClick_def)
qed

text \<open>
  Witness for C8: node id \<^verbatim>\<open>5\<close> and node id \<^verbatim>\<open>intro\<close> against three steps \<^verbatim>\<open>step1\<close>,
  \<^verbatim>\<open>step2\<close>, \<^verbatim>\<open>step3\<close>; and a node whose digits 9007199254740993 are read as
  9007199254740992, against a step with another number.
\<close>

theorem resolver_no_match_witness:
  "handleGraphNodeClick (Some [step ''step1'', step ''step2'', step ''step3'']) (Some ''5'') = None \<and>
   getNum ''intro'' = Finite (- 1) \<and>
   handleGraphNodeClick (Some [step ''step1'', step ''step2'', step ''step3'']) (Some ''intro'') = None \<and>
   getNum ''n9007199254740993'' = Finite 9007199254740992 \<and>
   handleGraphNodeClick (Some [step ''s9007199254740990'']) (Some ''n9007199254740993'') = None"
proof -
  have 1: "handleGraphNodeClick (Some [step ''step1'', step ''step2'', step ''step3'']) (Some ''5'') = None \<and>
   getNum ''intro'' = Finite (- 1) \<and>
   handleGraphNodeClick (Some [step ''step1'', step ''step2'', step ''step3'']) (Some ''intro'') = None"
    using resolver_no_match [of "''5''" "[step ''step1'', step ''step2'', step ''step3'']"]
      resolver_no_match [of "''intro''" "[step ''step1'', step ''step2'', step ''step3'']"]
    by (simp add: step_def getNum_def first_digit_run_def is_digit_def parseInt10_def
        decimal_value_def round_to_double_def)
  have 2: "getNum ''n9007199254740993'' = Finite 9007199254740992"
    by code_simp
  have 3: "getNum ''s9007199254740990'' = Finite 9007199254740990"
    by code_simp
  have 4: "handleGraphNodeClick (Some [step ''s9007199254740990'']) (Some ''n9007199254740993'') = None"
    using resolver_no_match [of "''n9007199254740993''" "[step ''s9007199254740990'']"] 2 3
    by (simp add: step_def)
  from 1 2 4 show ?thesis by simp
qed

text \<open>
  Claim C9: a node id without digits has the number -1, the first rule's search then finds the
  first step whose identifier has no digit either, its result is not -1 (so the exact match
  is not consulted), and that step is the one selected.
\<close>

theorem resolver_digitless_sentinel:
  "nid \<noteq> [] \<and> (\<forall>c\<in>set nid. \<not> is_digit c) \<and> (\<exists>s\<in>set steps. \<forall>c\<in>set (step_id s). \<not> is_digit c) \<longrightarrow>
   getNum nid = Finite (- 1) \<and>
   findIndex (\<lambda>s. getNum (step_id s) = getNum nid) steps =
     int (length (takeWhile (\<lambda>s. \<exists>c\<in>set (step_id s). is_digit c) steps)) \<and>
   findIndex (\<lambda>s. getNum (step_id s) = getNum nid) steps \<noteq> - 1 \<and>
   handleGraphNodeClick (Some steps) (Some nid) =
     Some (int (length (takeWhile (\<lambda>s. \<exists>c\<in>set (step_id s). is_digit c) steps)))"
proof (intro impI)
  assume a: "nid \<noteq> [] \<and> (\<forall>c\<in>set nid. \<not> is_digit c) \<and> (\<exists>s\<in>set steps. \<forall>c\<in>set (step_id s). \<not> is_digit c)"
  then have n: "getNum nid = Finite (- 1)"
    by (simp add: getNum_no_digit)
  have p: "(\<lambda>s. getNum (step_id s) \<noteq> getNum nid) = (\<lambda>s. \<exists>c\<in>set (step_id s). is_digit c)"
    by (simp add: n getNum_minus_one_iff)
  from a have hit: "\<exists>s\<in>set steps. getNum (step_id s) = getNum nid"
    by (simp add: n getNum_minus_one_iff)
  then have f: "findIndex (\<lambda>s. getNum (step_id s) = getNum nid) steps =
     int (length (takeWhile (\<lambda>s. \<exists>c\<in>set (step_id s). is_digit c) steps))"
    using findIndex_some [of steps "\<lambda>s. getNum (step_id s) = getNum nid"] by (simp add: p)
  from a hit have r: "handleGraphNodeClick (Some steps) (Some nid) =
     Some (int (length (takeWhile (\<lambda>s. \<exists>c\<in>set (step_id s). is_digit c) steps)))"
    using resolver_numeric_or_positional [of nid steps] by (simp add: p)
  from n f r show "getNum nid = Finite (- 1) \<and>
   findIndex (\<lambda>s. getNum (step_id s) = getNum nid) steps =
     int (length (takeWhile (\<lambda>s. \<exists>c\<in>set (step_id s). is_digit c) steps)) \<and>
   findIndex (\<lambda>s. getNum (step_id s) = getNum nid) steps \<noteq> - 1 \<and>
   handleGraphNodeClick (Some steps) (Some nid) =
     Some (int (length (takeWhile (\<lambda>s. \<exists>c\<in>set (step_id s). is_digit c) steps)))"
    by simp
qed

text \<open>
  Witness for C9: \<^verbatim>\<open>intro\<close> selects the digit-free \<^verbatim>\<open>setup\<close> at index 1, not its namesake at
  index 2.
\<close>

theorem resolver_digitless_sentinel_witness:
  "getNum ''intro'' = Finite (- 1) \<and>
   handleGraphNodeClick (Some [step ''step1'', step ''setup'', step ''intro'']) (Some ''intro'') = Some 1"
  using resolver_digitless_sentinel [of "''intro''" "[step ''step1'', step ''setup'', step ''intro'']"]
  by (simp add: step_def getNum_def first_digit_run_def is_digit_def parseInt10_def
      decimal_value_def round_to_double_def)

section \<open>Dependency-level assigner (ConceptGraph)\<close>

text \<open>
  The exceptions the modelled code can raise: the \<^verbatim>\<open>TypeError\<close> of a method call on
  \<^verbatim>\<open>undefined\<close>, and the \<^verbatim>\<open>SyntaxError\<close> of \<^verbatim>\<open>JSON.parse\<close>.
\<close>

datatype js_error = TypeError | SyntaxError

text \<open>
  Nodes and edges as the interfaces \<^verbatim>\<open>ReasoningNode\<close> and \<^verbatim>\<open>ReasoningEdge\<close> declare them, with
  the fields the level computation reads or writes (\<^verbatim>\<open>id\<close>, \<^verbatim>\<open>from\<close> and \<^verbatim>\<open>to\<close> are renamed:
  they clash with names of HOL and Isar). The field \<^verbatim>\<open>level\<close> is declared a number, but the
  computation can store a member of \<^verbatim>\<open>Object.prototype\<close> in it (see \<open>assign_levels\<close>), hence
  \<open>level_value\<close>; \<open>None\<close> is the absent optional field. A link is an edge extended with \<^verbatim>\<open>source\<close> and
  \<^verbatim>\<open>target\<close>, as \<^verbatim>\<open>data.edges.map(d => ({ ...d, source: d.from, target: d.to }))\<close> builds it.
\<close>

datatype level_value = Level int | Prototype_member

record ReasoningNode =
  node_id :: string
  label :: string
  level :: "level_value option"

record ReasoningEdge =
  edge_from :: string
  edge_to :: string
  reason :: string

record Link = ReasoningEdge +
  source :: string
  target :: string

definition to_link :: "ReasoningEdge \<Rightarrow> Link" where
  "to_link d = \<lparr>edge_from = edge_from d, edge_to = edge_to d, reason = reason d,
                 source = edge_from d, target = edge_to d\<rparr>"

text \<open>
  A JavaScript object used as a dictionary (\<^verbatim>\<open>Record<string, V>\<close>, created by \<^verbatim>\<open>{}\<close>) is
  modelled by the list of the assignments \<^verbatim>\<open>r[k] = v\<close> executed on it, newest first:
  \<^verbatim>\<open>r[k] = v\<close> is \<open>(k, v) # r\<close>.
\<close>

type_synonym 'v js_record = "(string \<times> 'v) list"

text \<open>
  Reading \<^verbatim>\<open>r[k]\<close> from a dictionary whose values are primitives (\<^verbatim>\<open>incomingCount\<close>,
  \<^verbatim>\<open>levels\<close>). The object inherits from \<^verbatim>\<open>Object.prototype\<close>:
  \<^item> the key \<^verbatim>\<open>__proto__\<close> is an accessor there; its setter ignores a primitive, so the
    assignments to it store nothing, and its getter returns \<^verbatim>\<open>Object.prototype\<close>;
  \<^item> any other key that was assigned is an own property, and the newest assignment is read;
  \<^item> a key that was not assigned reads the member of \<^verbatim>\<open>Object.prototype\<close> of that name (a
    function) when there is one, and \<^verbatim>\<open>undefined\<close> otherwise.
\<close>

datatype 'v js_value = Undefined | Own 'v | Inherited

definition object_prototype_keys :: "string list" where
  "object_prototype_keys =
     [''constructor'', ''__defineGetter__'', ''__defineSetter__'', ''hasOwnProperty'',
      ''__lookupGetter__'', ''__lookupSetter__'', ''isPrototypeOf'', ''propertyIsEnumerable'',
      ''toString'', ''valueOf'', ''__proto__'', ''toLocaleString'']"

definition js_get :: "'v js_record \<Rightarrow> string \<Rightarrow> 'v js_value" where
  "js_get r k =
     (if k = ''__proto__'' then Inherited
      else (case map_of r k of
              Some v \<Rightarrow> Own v
            | None \<Rightarrow> if k \<in> set object_prototype_keys then Inherited else Undefined))"

text \<open>
  The dictionary \<^verbatim>\<open>adj\<close> holds arrays and is read only in \<^verbatim>\<open>adj[k].push(...)\<close> and
  \<^verbatim>\<open>adj[k].forEach(...)\<close>. It is read by \<open>map_of\<close>, \<open>None\<close> standing for every value on which
  these calls raise a \<^verbatim>\<open>TypeError\<close>: \<^verbatim>\<open>undefined\<close>, and whatever an unassigned key inherits (a
  function, \<^verbatim>\<open>Object.prototype\<close>, and once \<^verbatim>\<open>adj['__proto__'] = []\<close> has made an array the
  prototype, its length and elements, a number and strings), none of which has a callable
  \<^verbatim>\<open>push\<close> or \<^verbatim>\<open>forEach\<close>. The key \<^verbatim>\<open>__proto__\<close> itself behaves as any other here: the setter
  accepts the array, the getter returns it, and \<^verbatim>\<open>push\<close> extends it in place.
\<close>

text \<open>
  The values of \<^verbatim>\<open>incomingCount\<close>: a number, or the string that \<^verbatim>\<open>+ 1\<close> makes of a function or
  an object. \<^verbatim>\<open>(incomingCount[k] || 0) + 1\<close> is \<open>or_zero_plus_one\<close> of the value read.
\<close>

datatype count_value = Count int | Text

definition or_zero_plus_one :: "count_value js_value \<Rightarrow> count_value" where
  "or_zero_plus_one x =
     (case x of
        Undefined \<Rightarrow> Count (0 + 1)
      | Own (Count c) \<Rightarrow> Count ((if c = 0 then 0 else c) + 1)
      | Own Text \<Rightarrow> Text
      | Inherited \<Rightarrow> Text)"

text \<open>
  \<^verbatim>\<open>nodes.forEach(n => { incomingCount[n.id] = 0; adj[n.id] = []; })\<close>
\<close>

fun init_tables :: "ReasoningNode list \<Rightarrow> count_value js_record \<times> string list js_record
    \<Rightarrow> count_value js_record \<times> string list js_record" where
  "init_tables [] (incomingCount, adj) = (incomingCount, adj)"
| "init_tables (n # ns) (incomingCount, adj) =
     init_tables ns ((node_id n, Count 0) # incomingCount, (node_id n, []) # adj)"

text \<open>
  \<^verbatim>\<open>links.forEach(l => { incomingCount[l.target] = (incomingCount[l.target] || 0) + 1;
  adj[l.source].push(l.target); })\<close>. The count of a target is guarded by \<^verbatim>\<open>|| 0\<close>; the
  \<^verbatim>\<open>push\<close> on \<^verbatim>\<open>adj[l.source]\<close> is not, and raises a \<^verbatim>\<open>TypeError\<close> when the source is not a
  node id.
\<close>

fun add_links :: "Link list \<Rightarrow> count_value js_record \<times> string list js_record
    \<Rightarrow> js_error + count_value js_record \<times> string list js_record" where
  "add_links [] (incomingCount, adj) = Inr (incomingCount, adj)"
| "add_links (l # ls) (incomingCount, adj) =
     (let incomingCount' =
            (target l, or_zero_plus_one (js_get incomingCount (target l))) # incomingCount
      in case map_of adj (source l) of
           None \<Rightarrow> Inl TypeError
         | Some ts \<Rightarrow> add_links ls (incomingCount', (source l, ts @ [target l]) # adj))"

text \<open>
  The queue's seeds: the nodes with \<^verbatim>\<open>incomingCount[n.id] === 0\<close>, in input order, at depth 0;
  when there is none and the graph has a node, the first node.
\<close>

definition seed_queue :: "ReasoningNode list \<Rightarrow> count_value js_record \<Rightarrow> (string \<times> int) list" where
  "seed_queue nodes incomingCount =
     (let queue = map (\<lambda>r. (node_id r, 0))
                    (filter (\<lambda>n. js_get incomingCount (node_id n) = Own (Count 0)) nodes)
      in case nodes of
           [] \<Rightarrow> queue
         | n0 # _ \<Rightarrow> if queue = [] then [(node_id n0, 0)] else queue)"

text \<open>
  The \<^verbatim>\<open>while (queue.length > 0)\<close> loop. \<^verbatim>\<open>levels[id] = depth\<close> is followed by
  \<^verbatim>\<open>adj[id].forEach(...)\<close>, which raises a \<^verbatim>\<open>TypeError\<close> when \<^verbatim>\<open>id\<close> is not a node id. The
  recursion terminates: a visit shrinks the set of unvisited keys of \<^verbatim>\<open>adj\<close>, a skip shortens the
  queue.
\<close>

function bfs :: "string list js_record \<Rightarrow> (string \<times> int) list \<Rightarrow> string set \<Rightarrow> int js_record
    \<Rightarrow> js_error + int js_record" where
  "bfs adj [] visited levels = Inr levels"
| "bfs adj ((i, depth) # queue) visited levels =
     (if i \<in> visited then bfs adj queue visited levels
      else
        (case map_of adj i of
           None \<Rightarrow> Inl TypeError
         | Some children \<Rightarrow>
             bfs adj (queue @ map (\<lambda>child. (child, depth + 1)) children)
               (insert i visited) ((i, depth) # levels)))"
  by pat_completeness auto
termination
proof (relation "inv_image (less_than <*lex*> less_than)
    (\<lambda>(adj, queue, visited, levels). (card (fst ` set adj - visited), length queue))")
  show "wf (inv_image (less_than <*lex*> less_than)
    (\<lambda>(adj, queue, visited, levels). (card (fst ` set adj - visited), length queue)))"
    by (intro wf_inv_image wf_lex_prod wf_less_than)
next
  fix adj :: "string list js_record" and i :: string and depth :: int
    and queue :: "(string \<times> int) list" and visited :: "string set" and levels :: "int js_record"
  assume "i \<in> visited"
  then show "((adj, queue, visited, levels), (adj, (i, depth) # queue, visited, levels))
    \<in> inv_image (less_than <*lex*> less_than)
    (\<lambda>(adj, queue, visited, levels). (card (fst ` set adj - visited), length queue))"
    by simp
next
  fix adj :: "string list js_record" and i :: string and depth :: int
    and queue :: "(string \<times> int) list" and visited :: "string set" and levels :: "int js_record"
    and children :: "string list"
  assume nv: "i \<notin> visited" and ch: "map_of adj i = Some children"
  from ch have "i \<in> fst ` set adj"
    by (auto dest: map_of_SomeD intro: rev_image_eqI)
  with nv have "fst ` set adj - insert i visited \<subset> fst ` set adj - visited"
    by auto
  then have "card (fst ` set adj - insert i visited) < card (fst ` set adj - visited)"
    by (intro psubset_card_mono) auto
  then show "((adj, queue @ map (\<lambda>child. (child, depth + 1)) children, insert i visited,
      (i, depth) # levels), (adj, (i, depth) # queue, visited, levels))
    \<in> inv_image (less_than <*lex*> less_than)
    (\<lambda>(adj, queue, visited, levels). (card (fst ` set adj - visited), length queue))"
    by simp
qed

text \<open>
  The level map after the loop, as the list of the assignments \<^verbatim>\<open>levels[id] = depth\<close> executed
  (newest first), and the nodes with \<^verbatim>\<open>n.level = levels[n.id] || 0\<close>: the depth read, 0 for
  \<^verbatim>\<open>undefined\<close> and for the depth 0, and the inherited member of \<^verbatim>\<open>Object.prototype\<close>, which is
  truthy, when \<^verbatim>\<open>levels[n.id]\<close> reads one.
\<close>

definition compute_levels :: "ReasoningNode list \<Rightarrow> ReasoningEdge list \<Rightarrow> js_error + int js_record" where
  "compute_levels nodes edges =
     (case add_links (map to_link edges) (init_tables nodes ([], [])) of
        Inl e \<Rightarrow> Inl e
      | Inr (incomingCount, adj) \<Rightarrow> bfs adj (seed_queue nodes incomingCount) {} [])"

definition assign_levels :: "ReasoningNode list \<Rightarrow> ReasoningEdge list \<Rightarrow> js_error + ReasoningNode list" where
  "assign_levels nodes edges =
     (case compute_levels nodes edges of
        Inl e \<Rightarrow> Inl e
      | Inr levels \<Rightarrow>
          Inr (map (\<lambda>n. n\<lparr>level := Some (case js_get levels (node_id n) of
                                              Undefined \<Rightarrow> Level 0
                                            | Own d \<Rightarrow> Level (if d = 0 then 0 else d)
                                            | Inherited \<Rightarrow> Prototype_member)\<rparr>)
                 nodes))"

text \<open>
  Nodes and edges with empty remaining fields, for concrete graphs.
\<close>

definition node :: "string \<Rightarrow> ReasoningNode" where
  "node i = \<lparr>node_id = i, label = [], level = None\<rparr>"

definition edge :: "string \<Rightarrow> string \<Rightarrow> ReasoningEdge" where
  "edge a b = \<lparr>edge_from = a, edge_to = b, reason = []\<rparr>"

text \<open>
  A graph that is a single cycle through the distinct ids \<open>cs\<close>: the node ids are those of
  \<open>cs\<close> (in any order) and the edges are those from each id to the next and from the last to
  the first (in any order).
\<close>

definition single_cycle :: "ReasoningNode list \<Rightarrow> ReasoningEdge list \<Rightarrow> string list \<Rightarrow> bool" where
  "single_cycle nodes edges cs \<longleftrightarrow>
     cs \<noteq> [] \<and> distinct cs \<and> set (map node_id nodes) = set cs \<and>
     set (map (\<lambda>e. (edge_from e, edge_to e)) edges) = set (zip cs (rotate1 cs))"

lemmas level_eval = assign_levels_def compute_levels_def seed_queue_def to_link_def node_def edge_def
  js_get_def or_zero_plus_one_def object_prototype_keys_def

lemma js_get_own:
  "k \<noteq> ''__proto__'' \<Longrightarrow> map_of r k = Some v \<Longrightarrow> js_get r k = Own v"
  by (simp add: js_get_def)

lemma js_get_proto: "js_get r ''__proto__'' = Inherited"
  by (simp add: js_get_def)

lemma proto_key: "''__proto__'' \<in> set object_prototype_keys"
  by (simp add: object_prototype_keys_def)

lemma js_get_plain:
  assumes "k \<notin> set object_prototype_keys"
  shows "js_get r k = (case map_of r k of Some v \<Rightarrow> Own v | None \<Rightarrow> Undefined)"
proof -
  from assms proto_key have "k \<noteq> ''__proto__''"
    by blast
  with assms show ?thesis
    by (simp add: js_get_def split: option.splits)
qed

lemma init_tables_eq:
  "init_tables ns (ic, adj) =
     (rev (map (\<lambda>n. (node_id n, Count 0)) ns) @ ic, rev (map (\<lambda>n. (node_id n, [])) ns) @ adj)"
  by (induction ns arbitrary: ic adj) simp_all

lemma map_of_const_entries:
  "map_of (rev (map (\<lambda>n. (f n, c)) ns)) k = (if k \<in> f ` set ns then Some c else None)"
  by (induction ns) (auto simp: map_of_append map_add_def split: option.splits)

lemma init_tables_adj:
  "map_of (snd (init_tables ns ([], []))) k = (if k \<in> node_id ` set ns then Some [] else None)"
  by (simp add: init_tables_eq map_of_const_entries)

lemma init_tables_incoming:
  "map_of (fst (init_tables ns ([], []))) k = (if k \<in> node_id ` set ns then Some (Count 0) else None)"
  by (simp add: init_tables_eq map_of_const_entries)

lemma add_links_dangling_source:
  "\<exists>l\<in>set ls. map_of adj (source l) = None \<Longrightarrow> add_links ls (ic, adj) = Inl TypeError"
proof (induction ls arbitrary: ic adj)
  case Nil
  then show ?case by simp
next
  case (Cons l ls)
  show ?case
  proof (cases "map_of adj (source l)")
    case None
    then show ?thesis by (simp add: Let_def)
  next
    case (Some ts)
    with Cons.prems obtain l' where l': "l' \<in> set ls" "map_of adj (source l') = None"
      by auto
    then have "map_of ((source l, ts @ [target l]) # adj) (source l') = None"
      using Some by auto
    with l' have "\<exists>l'\<in>set ls. map_of ((source l, ts @ [target l]) # adj) (source l') = None"
      by blast
    from Cons.IH [OF this] Some show ?thesis
      by (simp add: Let_def)
  qed
qed

lemma add_links_closed:
  "\<forall>l\<in>set ls. map_of adj (source l) \<noteq> None \<Longrightarrow>
   \<exists>ic' adj'. add_links ls (ic, adj) = Inr (ic', adj') \<and>
     (\<forall>k. map_of adj' k = map_option (\<lambda>ts. ts @ map target (filter (\<lambda>l. source l = k) ls)) (map_of adj k)) \<and>
     (\<forall>k c. k \<noteq> ''__proto__'' \<and> map_of ic k = Some (Count c) \<longrightarrow>
        map_of ic' k = Some (Count (c + int (length (filter (\<lambda>l. target l = k) ls)))))"
proof (induction ls arbitrary: ic adj)
  case Nil
  then show ?case by (simp add: option.map_ident)
next
  case (Cons l ls)
  from Cons.prems obtain ts where ts: "map_of adj (source l) = Some ts"
    by auto
  define ic1 where "ic1 = (target l, or_zero_plus_one (js_get ic (target l))) # ic"
  define adj1 where "adj1 = (source l, ts @ [target l]) # adj"
  from Cons.prems have "\<forall>l'\<in>set ls. map_of adj1 (source l') \<noteq> None"
    by (simp add: adj1_def)
  from Cons.IH [OF this, of ic1] obtain ic' adj' where
    r: "add_links ls (ic1, adj1) = Inr (ic', adj')"
    and a': "\<forall>k. map_of adj' k = map_option (\<lambda>ts. ts @ map target (filter (\<lambda>l. source l = k) ls)) (map_of adj1 k)"
    and c': "\<forall>k c. k \<noteq> ''__proto__'' \<and> map_of ic1 k = Some (Count c) \<longrightarrow>
        map_of ic' k = Some (Count (c + int (length (filter (\<lambda>l. target l = k) ls))))"
    by (elim exE conjE) (rule that)
  from a' have a: "map_of adj' k = map_option (\<lambda>ts. ts @ map target (filter (\<lambda>l. source l = k) ls)) (map_of adj1 k)" for k
    by (rule spec)
  from c' have c: "map_of ic' k = Some (Count (c + int (length (filter (\<lambda>l. target l = k) ls))))"
    if "k \<noteq> ''__proto__''" and "map_of ic1 k = Some (Count c)" for k c
    using that by simp
  have 1: "add_links (l # ls) (ic, adj) = Inr (ic', adj')"
    using r ts by (simp add: Let_def ic1_def adj1_def)
  have 2: "map_of adj' k = map_option (\<lambda>ts. ts @ map target (filter (\<lambda>l. source l = k) (l # ls))) (map_of adj k)" for k
    using a [of k] ts by (auto simp: adj1_def)
  have 3: "map_of ic' k = Some (Count (c + int (length (filter (\<lambda>l. target l = k) (l # ls)))))"
    if k: "k \<noteq> ''__proto__''" and m: "map_of ic k = Some (Count c)" for k c
  proof (cases "target l = k")
    case True
    from k m have "js_get ic k = Own (Count c)"
      by (rule js_get_own)
    with True have "map_of ic1 k = Some (Count (c + 1))"
      by (simp add: ic1_def or_zero_plus_one_def)
    from c [OF k this] True show ?thesis
      by simp
  next
    case False
    with m have "map_of ic1 k = Some (Count c)"
      by (simp add: ic1_def)
    from c [OF k this] False show ?thesis
      by simp
  qed
  from 2 have all2: "\<forall>k. map_of adj' k =
      map_option (\<lambda>ts. ts @ map target (filter (\<lambda>l. source l = k) (l # ls))) (map_of adj k)"
    by simp
  from 3 have all3: "\<forall>k c. k \<noteq> ''__proto__'' \<and> map_of ic k = Some (Count c) \<longrightarrow>
        map_of ic' k = Some (Count (c + int (length (filter (\<lambda>l. target l = k) (l # ls)))))"
    by simp
  from 1 all2 all3 show ?case
    by (intro exI [of _ ic'] exI [of _ adj'] conjI)
qed

lemma bfs_returns:
  assumes "\<forall>k ts. map_of adj k = Some ts \<longrightarrow> (\<forall>c\<in>set ts. map_of adj c \<noteq> None)"
    and "\<forall>i\<in>fst ` set queue. map_of adj i \<noteq> None"
  shows "\<exists>levels'. bfs adj queue visited levels = Inr levels'"
  using assms
proof (induction adj queue visited levels rule: bfs.induct)
  case (1 adj visited levels)
  then show ?case by simp
next
  case (2 adj i depth queue visited levels)
  show ?case
  proof (cases "i \<in> visited")
    case True
    with 2 show ?thesis by simp
  next
    case False
    from "2.prems"(2) obtain children where ch: "map_of adj i = Some children"
      by auto
    with "2.prems"(1) have "\<forall>c\<in>set children. map_of adj c \<noteq> None"
      by blast
    with "2.prems"(2)
    have "\<forall>j\<in>fst ` set (queue @ map (\<lambda>child. (child, depth + 1)) children). map_of adj j \<noteq> None"
      by auto
    from "2.IH"(2) [OF False ch "2.prems"(1) this] False ch show ?thesis
      by simp
  qed
qed

lemma bfs_log_distinct:
  assumes "bfs adj queue visited levels = Inr levels'"
    and "fst ` set levels \<subseteq> visited" and "distinct (map fst levels)"
  shows "distinct (map fst levels')"
  using assms
proof (induction adj queue visited levels rule: bfs.induct)
  case (1 adj visited levels)
  then show ?case by simp
next
  case (2 adj i depth queue visited levels)
  show ?case
  proof (cases "i \<in> visited")
    case True
    with 2 show ?thesis by simp
  next
    case False
    with "2.prems"(1) obtain children where ch: "map_of adj i = Some children"
      by (auto split: option.splits)
    from False ch "2.prems"(1)
    have r: "bfs adj (queue @ map (\<lambda>child. (child, depth + 1)) children) (insert i visited)
        ((i, depth) # levels) = Inr levels'"
      by simp
    from False "2.prems"(2) have "i \<notin> fst ` set levels"
      by auto
    with "2.prems"(3) have d: "distinct (map fst ((i, depth) # levels))"
      by simp
    from "2.prems"(2) have s: "fst ` set ((i, depth) # levels) \<subseteq> insert i visited"
      by auto
    from "2.IH"(2) [OF False ch r s d] show ?thesis .
  qed
qed

lemma bfs_log_grows:
  assumes "bfs adj queue visited levels = Inr levels'"
  shows "set levels \<subseteq> set levels'"
  using assms
proof (induction adj queue visited levels rule: bfs.induct)
  case (1 adj visited levels)
  then show ?case by simp
next
  case (2 adj i depth queue visited levels)
  show ?case
  proof (cases "i \<in> visited")
    case True
    with 2 show ?thesis by simp
  next
    case False
    with "2.prems" obtain children where ch: "map_of adj i = Some children"
      by (auto split: option.splits)
    from False ch "2.prems"
    have "bfs adj (queue @ map (\<lambda>child. (child, depth + 1)) children) (insert i visited)
        ((i, depth) # levels) = Inr levels'"
      by simp
    from "2.IH"(2) [OF False ch this] show ?thesis by auto
  qed
qed

lemma bfs_log_covers:
  assumes "bfs adj queue visited levels = Inr levels'" and "visited = fst ` set levels"
  shows "fst ` set queue \<subseteq> fst ` set levels'"
  using assms
proof (induction adj queue visited levels rule: bfs.induct)
  case (1 adj visited levels)
  then show ?case by simp
next
  case (2 adj i depth queue visited levels)
  show ?case
  proof (cases "i \<in> visited")
    case True
    with "2.prems" have r: "bfs adj queue visited levels = Inr levels'"
      by simp
    from "2.IH"(1) [OF True r "2.prems"(2)] have "fst ` set queue \<subseteq> fst ` set levels'" .
    moreover from True "2.prems"(2) bfs_log_grows [OF r] have "i \<in> fst ` set levels'"
      by auto
    ultimately show ?thesis by simp
  next
    case False
    with "2.prems" obtain children where ch: "map_of adj i = Some children"
      by (auto split: option.splits)
    from False ch "2.prems"
    have r: "bfs adj (queue @ map (\<lambda>child. (child, depth + 1)) children) (insert i visited)
        ((i, depth) # levels) = Inr levels'"
      by simp
    from "2.prems"(2) have v: "insert i visited = fst ` set ((i, depth) # levels)"
      by simp
    from "2.IH"(2) [OF False ch r v] have "fst ` set queue \<subseteq> fst ` set levels'"
      by auto
    moreover from bfs_log_grows [OF r] have "i \<in> fst ` set levels'"
      by force
    ultimately show ?thesis by simp
  qed
qed

lemma bfs_log_closed:
  assumes "bfs adj queue visited levels = Inr levels'" and "visited = fst ` set levels"
    and "\<forall>v\<in>visited. \<forall>ts. map_of adj v = Some ts \<longrightarrow> set ts \<subseteq> visited \<union> fst ` set queue"
  shows "\<forall>v\<in>fst ` set levels'. \<forall>ts. map_of adj v = Some ts \<longrightarrow> set ts \<subseteq> fst ` set levels'"
  using assms
proof (induction adj queue visited levels rule: bfs.induct)
  case (1 adj visited levels)
  then show ?case by simp
next
  case (2 adj i depth queue visited levels)
  show ?case
  proof (cases "i \<in> visited")
    case True
    with "2.prems" have r: "bfs adj queue visited levels = Inr levels'"
      by simp
    from True "2.prems"(3)
    have "\<forall>v\<in>visited. \<forall>ts. map_of adj v = Some ts \<longrightarrow> set ts \<subseteq> visited \<union> fst ` set queue"
      by auto
    from "2.IH"(1) [OF True r "2.prems"(2) this] show ?thesis .
  next
    case False
    with "2.prems" obtain children where ch: "map_of adj i = Some children"
      by (auto split: option.splits)
    from False ch "2.prems"
    have r: "bfs adj (queue @ map (\<lambda>child. (child, depth + 1)) children) (insert i visited)
        ((i, depth) # levels) = Inr levels'"
      by simp
    from "2.prems"(2) have v: "insert i visited = fst ` set ((i, depth) # levels)"
      by simp
    have "\<forall>v\<in>insert i visited. \<forall>ts. map_of adj v = Some ts \<longrightarrow>
        set ts \<subseteq> insert i visited \<union> fst ` set (queue @ map (\<lambda>child. (child, depth + 1)) children)"
    proof (intro ballI allI impI)
      fix v ts
      assume v: "v \<in> insert i visited" and t: "map_of adj v = Some ts"
      show "set ts \<subseteq> insert i visited \<union> fst ` set (queue @ map (\<lambda>child. (child, depth + 1)) children)"
      proof (cases "v = i")
        case True
        with t ch have "ts = children" by simp
        then show ?thesis by force
      next
        case False
        with v have "v \<in> visited" by simp
        with "2.prems"(3) t have "set ts \<subseteq> visited \<union> fst ` set ((i, depth) # queue)"
          by blast
        then show ?thesis by auto
      qed
    qed
    from "2.IH"(2) [OF False ch r v this] show ?thesis .
  qed
qed

lemma bfs_log_bounded:
  assumes "bfs adj queue visited levels = Inr levels'"
  shows "fst ` set levels' \<subseteq> fst ` set levels \<union> dom (map_of adj)"
  using assms
proof (induction adj queue visited levels rule: bfs.induct)
  case (1 adj visited levels)
  then show ?case by auto
next
  case (2 adj i depth queue visited levels)
  show ?case
  proof (cases "i \<in> visited")
    case True
    with 2 show ?thesis by simp
  next
    case False
    with "2.prems" obtain children where ch: "map_of adj i = Some children"
      by (auto split: option.splits)
    from False ch "2.prems"
    have "bfs adj (queue @ map (\<lambda>child. (child, depth + 1)) children) (insert i visited)
        ((i, depth) # levels) = Inr levels'"
      by simp
    from "2.IH"(2) [OF False ch this] ch show ?thesis by auto
  qed
qed

lemma bfs_depths_nonneg:
  assumes "bfs adj queue visited levels = Inr levels'"
    and "\<forall>d\<in>snd ` set queue. 0 \<le> d" and "\<forall>d\<in>snd ` set levels. 0 \<le> d"
  shows "\<forall>d\<in>snd ` set levels'. 0 \<le> d"
  using assms
proof (induction adj queue visited levels rule: bfs.induct)
  case (1 adj visited levels)
  then show ?case by simp
next
  case (2 adj i depth queue visited levels)
  show ?case
  proof (cases "i \<in> visited")
    case True
    with 2 show ?thesis by simp
  next
    case False
    with "2.prems" obtain children where ch: "map_of adj i = Some children"
      by (auto split: option.splits)
    from False ch "2.prems"
    have r: "bfs adj (queue @ map (\<lambda>child. (child, depth + 1)) children) (insert i visited)
        ((i, depth) # levels) = Inr levels'"
      by simp
    from "2.prems"(2) have d: "0 \<le> depth" by simp
    with "2.prems"(2)
    have q: "\<forall>d\<in>snd ` set (queue @ map (\<lambda>child. (child, depth + 1)) children). 0 \<le> d"
      by auto
    from d "2.prems"(3) have l: "\<forall>d\<in>snd ` set ((i, depth) # levels). 0 \<le> d"
      by simp
    from "2.IH"(2) [OF False ch r q l] show ?thesis .
  qed
qed

lemma link_fields [simp]: "source (to_link e) = edge_from e" "target (to_link e) = edge_to e"
  by (simp_all add: to_link_def)

lemma graph_tables:
  assumes "\<forall>e\<in>set edges. edge_from e \<in> node_id ` set nodes"
  shows "\<exists>incomingCount adj.
    add_links (map to_link edges) (init_tables nodes ([], [])) = Inr (incomingCount, adj) \<and>
    (\<forall>k. map_of adj k =
      (if k \<in> node_id ` set nodes then Some (map edge_to (filter (\<lambda>e. edge_from e = k) edges)) else None)) \<and>
    (\<forall>k. k \<in> node_id ` set nodes \<and> k \<noteq> ''__proto__'' \<longrightarrow>
      js_get incomingCount k = Own (Count (int (length (filter (\<lambda>e. edge_to e = k) edges)))))"
proof -
  obtain ic0 adj0 where t: "init_tables nodes ([], []) = (ic0, adj0)"
    by (cases "init_tables nodes ([], [])")
  have a0: "map_of adj0 k = (if k \<in> node_id ` set nodes then Some [] else None)" for k
    using init_tables_adj [of nodes k] t by simp
  have c0: "map_of ic0 k = (if k \<in> node_id ` set nodes then Some (Count 0) else None)" for k
    using init_tables_incoming [of nodes k] t by simp
  from assms have "\<forall>l\<in>set (map to_link edges). map_of adj0 (source l) \<noteq> None"
    by (simp add: a0)
  from add_links_closed [OF this, of ic0] obtain ic adj where
    r: "add_links (map to_link edges) (ic0, adj0) = Inr (ic, adj)"
    and a': "\<forall>k. map_of adj k =
      map_option (\<lambda>ts. ts @ map target (filter (\<lambda>l. source l = k) (map to_link edges))) (map_of adj0 k)"
    and c': "\<forall>k c. k \<noteq> ''__proto__'' \<and> map_of ic0 k = Some (Count c) \<longrightarrow>
      map_of ic k = Some (Count (c + int (length (filter (\<lambda>l. target l = k) (map to_link edges)))))"
    by (elim exE conjE) (rule that)
  from a' have a: "map_of adj k =
      map_option (\<lambda>ts. ts @ map target (filter (\<lambda>l. source l = k) (map to_link edges))) (map_of adj0 k)" for k
    by (rule spec)
  from c' have c: "map_of ic k = Some (Count (c + int (length (filter (\<lambda>l. target l = k) (map to_link edges)))))"
    if "k \<noteq> ''__proto__''" and "map_of ic0 k = Some (Count c)" for k c
    using that by simp
  have 1: "add_links (map to_link edges) (init_tables nodes ([], [])) = Inr (ic, adj)"
    using r t by simp
  have 2: "map_of adj k =
      (if k \<in> node_id ` set nodes then Some (map edge_to (filter (\<lambda>e. edge_from e = k) edges)) else None)" for k
    using a [of k] by (simp add: a0 filter_map comp_def)
  have 3: "js_get ic k = Own (Count (int (length (filter (\<lambda>e. edge_to e = k) edges))))"
    if "k \<in> node_id ` set nodes" and k: "k \<noteq> ''__proto__''" for k
  proof -
    from that have "map_of ic0 k = Some (Count 0)"
      by (simp add: c0)
    from c [OF k this] have "map_of ic k = Some (Count (int (length (filter (\<lambda>e. edge_to e = k) edges))))"
      by (simp add: filter_map comp_def)
    with k show ?thesis
      by (rule js_get_own)
  qed
  from 2 have all2: "\<forall>k. map_of adj k =
      (if k \<in> node_id ` set nodes then Some (map edge_to (filter (\<lambda>e. edge_from e = k) edges)) else None)"
    by simp
  from 3 have all3: "\<forall>k. k \<in> node_id ` set nodes \<and> k \<noteq> ''__proto__'' \<longrightarrow>
      js_get ic k = Own (Count (int (length (filter (\<lambda>e. edge_to e = k) edges))))"
    by simp
  from 1 all2 all3 show ?thesis
    by (intro exI [of _ ic] exI [of _ adj] conjI)
qed

lemma cycle_closed_all:
  assumes x: "x \<in> set cs" "x \<in> S"
    and step: "\<forall>(u, v)\<in>set (zip cs (rotate1 cs)). u \<in> S \<longrightarrow> v \<in> S"
  shows "set cs \<subseteq> S"
proof
  fix y
  assume "y \<in> set cs"
  then obtain m where m: "m < length cs" "y = cs ! m"
    by (auto simp: in_set_conv_nth)
  from x obtain i where i: "i < length cs" "x = cs ! i"
    by (auto simp: in_set_conv_nth)
  from i have n: "0 < length cs" by auto
  have walk: "cs ! ((i + k) mod length cs) \<in> S" for k
  proof (induction k)
    case 0
    with i x show ?case by simp
  next
    case (Suc k)
    define j where "j = (i + k) mod length cs"
    from n have j: "j < length cs" by (simp add: j_def)
    then have "(cs ! j, rotate1 cs ! j) \<in> set (zip cs (rotate1 cs))"
      by (auto simp: set_zip)
    with step Suc have "rotate1 cs ! j \<in> S"
      by (auto simp: j_def)
    moreover from j have "rotate1 cs ! j = cs ! (Suc j mod length cs)"
      by (rule nth_rotate1)
    moreover have "Suc j mod length cs = (i + Suc k) mod length cs"
      by (simp add: j_def mod_Suc_eq)
    ultimately show ?case by simp
  qed
  from i m have "(i + (m + length cs - i)) mod length cs = m"
    by simp
  with walk [of "m + length cs - i"] m show "y \<in> S" by simp
qed

lemma single_cycle_indegree:
  assumes "single_cycle nodes edges cs" and "k \<in> node_id ` set nodes"
  shows "0 < length (filter (\<lambda>e. edge_to e = k) edges)"
proof -
  from assms have "k \<in> set (rotate1 cs)"
    by (simp add: single_cycle_def)
  then obtain j where "j < length (rotate1 cs)" "rotate1 cs ! j = k"
    unfolding in_set_conv_nth by blast
  then have j: "j < length cs" "k = rotate1 cs ! j"
    by simp_all
  then have "(cs ! j, k) \<in> set (zip cs (rotate1 cs))"
    by (auto simp: set_zip)
  with assms(1) have "(cs ! j, k) \<in> set (map (\<lambda>e. (edge_from e, edge_to e)) edges)"
    by (simp add: single_cycle_def)
  then obtain e where "e \<in> set edges" "edge_to e = k"
    by auto
  then have "filter (\<lambda>e. edge_to e = k) edges \<noteq> []"
    by (auto simp: filter_empty_conv)
  then show ?thesis by simp
qed

lemma single_cycle_levels_lemma:
  assumes cyc: "single_cycle nodes edges cs"
  shows "\<exists>levels. compute_levels nodes edges = Inr levels \<and> distinct (map fst levels) \<and>
           set (map fst levels) = set (map node_id nodes)"
proof -
  from cyc have ids: "node_id ` set nodes = set cs" and ne: "cs \<noteq> []"
    and es: "set (map (\<lambda>e. (edge_from e, edge_to e)) edges) = set (zip cs (rotate1 cs))"
    by (simp_all add: single_cycle_def)
  have ends: "edge_from e \<in> set cs \<and> edge_to e \<in> set cs" if "e \<in> set edges" for e
  proof -
    from that es have "(edge_from e, edge_to e) \<in> set (zip cs (rotate1 cs))"
      by force
    then show ?thesis
      by (auto dest: set_zip_leftD set_zip_rightD)
  qed
  then have "\<forall>e\<in>set edges. edge_from e \<in> node_id ` set nodes"
    by (simp add: ids)
  from graph_tables [OF this] obtain ic adj where
    tabs: "add_links (map to_link edges) (init_tables nodes ([], [])) = Inr (ic, adj)"
    and adj': "\<forall>k. map_of adj k =
      (if k \<in> node_id ` set nodes then Some (map edge_to (filter (\<lambda>e. edge_from e = k) edges)) else None)"
    and ic': "\<forall>k. k \<in> node_id ` set nodes \<and> k \<noteq> ''__proto__'' \<longrightarrow>
      js_get ic k = Own (Count (int (length (filter (\<lambda>e. edge_to e = k) edges))))"
    by (elim exE conjE) (rule that)
  from adj' have adj: "map_of adj k =
      (if k \<in> node_id ` set nodes then Some (map edge_to (filter (\<lambda>e. edge_from e = k) edges)) else None)" for k
    by (rule spec)
  from ic' have ic: "js_get ic k = Own (Count (int (length (filter (\<lambda>e. edge_to e = k) edges))))"
    if "k \<in> node_id ` set nodes" and "k \<noteq> ''__proto__''" for k
    using that by simp
  from ids ne obtain n0 ns where nodes: "nodes = n0 # ns"
    by (cases nodes) auto
  have "filter (\<lambda>n. js_get ic (node_id n) = Own (Count 0)) nodes = []"
  proof -
    have "js_get ic (node_id n) \<noteq> Own (Count 0)" if "n \<in> set nodes" for n
    proof (cases "node_id n = ''__proto__''")
      case True
      then show ?thesis by (simp add: js_get_proto)
    next
      case False
      with ic [of "node_id n"] single_cycle_indegree [OF cyc, of "node_id n"] that
      show ?thesis by simp
    qed
    then show ?thesis by (simp add: filter_empty_conv)
  qed
  then have seed: "seed_queue nodes ic = [(node_id n0, 0)]"
    by (simp add: seed_queue_def nodes)
  have cl: "\<forall>k ts. map_of adj k = Some ts \<longrightarrow> (\<forall>c\<in>set ts. map_of adj c \<noteq> None)"
    using ends by (auto simp: adj ids split: if_splits)
  have q: "\<forall>i\<in>fst ` set [(node_id n0, 0::int)]. map_of adj i \<noteq> None"
    by (simp add: adj nodes)
  from bfs_returns [OF cl q, of "{}" "[]"] obtain levels where
    r: "bfs adj [(node_id n0, 0)] {} [] = Inr levels"
    by blast
  have res: "compute_levels nodes edges = Inr levels"
    using tabs seed r by (simp add: compute_levels_def)
  have d: "distinct (map fst levels)"
    using bfs_log_distinct [OF r] by simp
  have start: "node_id n0 \<in> fst ` set levels"
    using bfs_log_covers [OF r] by simp
  have closed: "\<forall>v\<in>fst ` set levels. \<forall>ts. map_of adj v = Some ts \<longrightarrow> set ts \<subseteq> fst ` set levels"
    using bfs_log_closed [OF r] by simp
  have bound: "fst ` set levels \<subseteq> node_id ` set nodes"
    using bfs_log_bounded [OF r] by (auto simp: adj dom_def split: if_splits)
  have walk: "v \<in> fst ` set levels"
    if uv: "(u, v) \<in> set (zip cs (rotate1 cs))" and u: "u \<in> fst ` set levels" for u v
  proof -
    from uv es have "(u, v) \<in> set (map (\<lambda>e. (edge_from e, edge_to e)) edges)"
      by simp
    then obtain e where e: "e \<in> set edges" "edge_from e = u" "edge_to e = v"
      by auto
    from u bound have "u \<in> node_id ` set nodes" by blast
    then have "map_of adj u = Some (map edge_to (filter (\<lambda>e. edge_from e = u) edges))"
      by (simp add: adj)
    with closed u have "set (map edge_to (filter (\<lambda>e. edge_from e = u) edges)) \<subseteq> fst ` set levels"
      by blast
    moreover from e have "v \<in> set (map edge_to (filter (\<lambda>e. edge_from e = u) edges))"
      by auto
    ultimately show ?thesis by blast
  qed
  have step: "\<forall>(u, v)\<in>set (zip cs (rotate1 cs)). u \<in> fst ` set levels \<longrightarrow> v \<in> fst ` set levels"
    using walk by blast
  have first: "node_id n0 \<in> set cs"
    using ids nodes by auto
  have "set cs \<subseteq> fst ` set levels"
    by (rule cycle_closed_all [OF first start step])
  with bound ids have "set (map fst levels) = set (map node_id nodes)"
    by auto
  with res d show ?thesis by blast
qed

lemma bfs_front_zero:
  assumes "bfs adj (q0 @ q1) visited levels = Inr levels'" and "visited = fst ` set levels"
    and "\<forall>d\<in>snd ` set q0. d = 0" and "\<forall>d\<in>snd ` set levels. d = 0"
  shows "\<forall>i\<in>fst ` set q0. (i, 0) \<in> set levels'"
  using assms
proof (induction q0 arbitrary: q1 visited levels)
  case Nil
  then show ?case by simp
next
  case (Cons p q0)
  obtain i d where p: "p = (i, d)" by (cases p)
  from Cons.prems(3) p have d: "d = 0" by simp
  from Cons.prems(3) have z: "\<forall>d\<in>snd ` set q0. d = 0" by simp
  show ?case
  proof (cases "i \<in> visited")
    case True
    with Cons.prems(1) p have r: "bfs adj (q0 @ q1) visited levels = Inr levels'"
      by simp
    from True Cons.prems(2,4) have "(i, 0) \<in> set levels"
      by force
    with bfs_log_grows [OF r] have "(i, 0) \<in> set levels'"
      by blast
    with Cons.IH [OF r Cons.prems(2) z Cons.prems(4)] p show ?thesis
      by simp
  next
    case False
    with Cons.prems(1) p obtain children where ch: "map_of adj i = Some children"
      by (auto split: option.splits)
    from False ch Cons.prems(1) p d
    have r: "bfs adj (q0 @ (q1 @ map (\<lambda>child. (child, 0 + 1)) children)) (insert i visited)
        ((i, 0) # levels) = Inr levels'"
      by simp
    from Cons.prems(2) have v: "insert i visited = fst ` set ((i, 0::int) # levels)"
      by simp
    from Cons.prems(4) have l: "\<forall>d\<in>snd ` set ((i, 0::int) # levels). d = 0"
      by simp
    from bfs_log_grows [OF r] have "(i, 0) \<in> set levels'"
      by auto
    with Cons.IH [OF r v z l] p show ?thesis
      by simp
  qed
qed

lemma seed_queue_depths: "\<forall>d\<in>snd ` set (seed_queue nodes ic). d = 0"
  by (auto simp: seed_queue_def Let_def split: list.splits if_splits)

lemma seed_queue_ids: "fst ` set (seed_queue nodes ic) \<subseteq> node_id ` set nodes"
  by (auto simp: seed_queue_def Let_def split: list.splits if_splits)

lemma closed_graph_compute_levels:
  assumes closed: "\<forall>e\<in>set edges. edge_from e \<in> node_id ` set nodes \<and> edge_to e \<in> node_id ` set nodes"
  shows "\<exists>levels incomingCount.
     compute_levels nodes edges = Inr levels \<and> distinct (map fst levels) \<and>
     fst ` set levels \<subseteq> node_id ` set nodes \<and> (\<forall>d\<in>snd ` set levels. 0 \<le> d) \<and>
     (\<forall>k\<in>node_id ` set nodes. k \<noteq> ''__proto__'' \<longrightarrow>
        js_get incomingCount k = Own (Count (int (length (filter (\<lambda>e. edge_to e = k) edges))))) \<and>
     (\<forall>i\<in>fst ` set (seed_queue nodes incomingCount). map_of levels i = Some 0)"
proof -
  from closed have "\<forall>e\<in>set edges. edge_from e \<in> node_id ` set nodes"
    by simp
  from graph_tables [OF this] obtain ic adj where
    tabs: "add_links (map to_link edges) (init_tables nodes ([], [])) = Inr (ic, adj)"
    and adj': "\<forall>k. map_of adj k =
      (if k \<in> node_id ` set nodes then Some (map edge_to (filter (\<lambda>e. edge_from e = k) edges)) else None)"
    and ic: "\<forall>k. k \<in> node_id ` set nodes \<and> k \<noteq> ''__proto__'' \<longrightarrow>
      js_get ic k = Own (Count (int (length (filter (\<lambda>e. edge_to e = k) edges))))"
    by (elim exE conjE) (rule that)
  from adj' have adj: "map_of adj k =
      (if k \<in> node_id ` set nodes then Some (map edge_to (filter (\<lambda>e. edge_from e = k) edges)) else None)" for k
    by (rule spec)
  have cl: "\<forall>k ts. map_of adj k = Some ts \<longrightarrow> (\<forall>c\<in>set ts. map_of adj c \<noteq> None)"
    using closed by (auto simp: adj split: if_splits)
  have q: "\<forall>i\<in>fst ` set (seed_queue nodes ic). map_of adj i \<noteq> None"
    using seed_queue_ids [of nodes ic] by (auto simp: adj)
  from bfs_returns [OF cl q, of "{}" "[]"] obtain levels where
    r: "bfs adj (seed_queue nodes ic) {} [] = Inr levels"
    by blast
  have res: "compute_levels nodes edges = Inr levels"
    using tabs r by (simp add: compute_levels_def)
  have d: "distinct (map fst levels)"
    using bfs_log_distinct [OF r] by simp
  have bound: "fst ` set levels \<subseteq> node_id ` set nodes"
    using bfs_log_bounded [OF r] by (auto simp: adj dom_def split: if_splits)
  have nn: "\<forall>d\<in>snd ` set levels. 0 \<le> d"
    using bfs_depths_nonneg [OF r] seed_queue_depths [of nodes ic] by simp
  from r have "bfs adj (seed_queue nodes ic @ []) {} [] = Inr levels"
    by simp
  from bfs_front_zero [OF this] seed_queue_depths [of nodes ic]
  have "\<forall>i\<in>fst ` set (seed_queue nodes ic). (i, 0) \<in> set levels"
    by simp
  with d have z: "\<forall>i\<in>fst ` set (seed_queue nodes ic). map_of levels i = Some 0"
    by (auto intro: map_of_is_SomeI)
  from ic have ic': "\<forall>k\<in>node_id ` set nodes. k \<noteq> ''__proto__'' \<longrightarrow>
        js_get ic k = Own (Count (int (length (filter (\<lambda>e. edge_to e = k) edges))))"
    by blast
  from res d bound nn ic' z show ?thesis
    by (intro exI [of _ levels] exI [of _ ic] conjI)
qed

lemma dangling_source_fails:
  assumes "\<exists>e\<in>set edges. edge_from e \<notin> node_id ` set nodes"
  shows "assign_levels nodes edges = Inl TypeError"
proof -
  obtain ic0 adj0 where t: "init_tables nodes ([], []) = (ic0, adj0)"
    by (cases "init_tables nodes ([], [])")
  have a0: "map_of adj0 k = (if k \<in> node_id ` set nodes then Some [] else None)" for k
    using init_tables_adj [of nodes k] t by simp
  from assms have "\<exists>l\<in>set (map to_link edges). map_of adj0 (source l) = None"
    by (simp add: a0)
  from add_links_dangling_source [OF this, of ic0] t show ?thesis
    by (simp add: assign_levels_def compute_levels_def)
qed

lemma seed_queue_zero_member:
  assumes "n \<in> set nodes" and "js_get ic (node_id n) = Own (Count 0)"
  shows "node_id n \<in> fst ` set (seed_queue nodes ic)"
proof -
  define queue where
    "queue = map (\<lambda>r. (node_id r, 0::int)) (filter (\<lambda>n. js_get ic (node_id n) = Own (Count 0)) nodes)"
  from assms have m: "(node_id n, 0) \<in> set queue"
    by (simp add: queue_def image_iff) blast
  then have "queue \<noteq> []"
    by auto
  then have "seed_queue nodes ic = queue"
    by (cases nodes) (simp_all add: seed_queue_def queue_def)
  with m show ?thesis
    by (simp add: image_iff) (rule bexI [of _ "(node_id n, 0)"], simp_all)
qed

lemma closed_graph_assign_levels:
  assumes closed: "\<forall>e\<in>set edges. edge_from e \<in> node_id ` set nodes \<and> edge_to e \<in> node_id ` set nodes"
    and plain: "\<forall>n\<in>set nodes. node_id n \<notin> set object_prototype_keys"
  shows "\<exists>nodes'. assign_levels nodes edges = Inr nodes' \<and> map node_id nodes' = map node_id nodes \<and>
     (\<forall>n\<in>set nodes'. \<exists>d. level n = Some (Level d) \<and> 0 \<le> d) \<and>
     (\<forall>n\<in>set nodes'. filter (\<lambda>e. edge_to e = node_id n) edges = [] \<longrightarrow> level n = Some (Level 0)) \<and>
     ((\<forall>n\<in>set nodes. filter (\<lambda>e. edge_to e = node_id n) edges \<noteq> []) \<and> nodes \<noteq> [] \<longrightarrow>
        level (hd nodes') = Some (Level 0))"
proof -
  from closed_graph_compute_levels [OF closed] obtain levels ic where
    res: "compute_levels nodes edges = Inr levels"
    and nn: "\<forall>d\<in>snd ` set levels. 0 \<le> d"
    and ic: "\<forall>k\<in>node_id ` set nodes. k \<noteq> ''__proto__'' \<longrightarrow>
        js_get ic k = Own (Count (int (length (filter (\<lambda>e. edge_to e = k) edges))))"
    and z: "\<forall>i\<in>fst ` set (seed_queue nodes ic). map_of levels i = Some 0"
    by (elim exE conjE) (rule that)
  have np: "node_id n \<noteq> ''__proto__''" if "n \<in> set nodes" for n
    using plain that proto_key by auto
  define lev where "lev n = (case map_of levels (node_id n) of None \<Rightarrow> (0::int) | Some d \<Rightarrow> d)" for n :: ReasoningNode
  define nodes' where "nodes' = map (\<lambda>n. n\<lparr>level := Some (Level (lev n))\<rparr>) nodes"
  have rd: "(case js_get levels (node_id n) of
               Undefined \<Rightarrow> Level 0
             | Own d \<Rightarrow> Level (if d = 0 then 0 else d)
             | Inherited \<Rightarrow> Prototype_member) = Level (lev n)" if "n \<in> set nodes" for n
  proof -
    from plain that have "js_get levels (node_id n) =
        (case map_of levels (node_id n) of Some v \<Rightarrow> Own v | None \<Rightarrow> Undefined)"
      by (intro js_get_plain) simp
    then show ?thesis
      by (simp add: lev_def split: option.splits)
  qed
  have 1: "assign_levels nodes edges = Inr nodes'"
    using res rd by (simp add: assign_levels_def nodes'_def)
  have 2: "map node_id nodes' = map node_id nodes"
    by (simp add: nodes'_def comp_def)
  have lev0: "0 \<le> lev n" for n
  proof (cases "map_of levels (node_id n)")
    case None
    then show ?thesis by (simp add: lev_def)
  next
    case (Some d)
    then have "(node_id n, d) \<in> set levels"
      by (rule map_of_SomeD)
    then have "snd (node_id n, d) \<in> snd ` set levels"
      by (rule imageI)
    then have "d \<in> snd ` set levels"
      by simp
    with nn have "0 \<le> d"
      by blast
    with Some show ?thesis by (simp add: lev_def)
  qed
  then have 3: "\<forall>n\<in>set nodes'. \<exists>d. level n = Some (Level d) \<and> 0 \<le> d"
    by (auto simp: nodes'_def)
  have 4: "\<forall>n\<in>set nodes'. filter (\<lambda>e. edge_to e = node_id n) edges = [] \<longrightarrow> level n = Some (Level 0)"
  proof (intro ballI impI)
    fix n'
    assume n': "n' \<in> set nodes'" and f: "filter (\<lambda>e. edge_to e = node_id n') edges = []"
    from n' obtain n where n: "n \<in> set nodes" "n' = n\<lparr>level := Some (Level (lev n))\<rparr>"
      by (auto simp: nodes'_def)
    with f ic np [of n] have "js_get ic (node_id n) = Own (Count 0)"
      by simp
    with n(1) have "node_id n \<in> fst ` set (seed_queue nodes ic)"
      by (intro seed_queue_zero_member)
    with z have "map_of levels (node_id n) = Some 0"
      by blast
    with n show "level n' = Some (Level 0)"
      by (simp add: lev_def)
  qed
  have 5: "(\<forall>n\<in>set nodes. filter (\<lambda>e. edge_to e = node_id n) edges \<noteq> []) \<and> nodes \<noteq> [] \<longrightarrow>
        level (hd nodes') = Some (Level 0)"
  proof (intro impI, elim conjE)
    assume all: "\<forall>n\<in>set nodes. filter (\<lambda>e. edge_to e = node_id n) edges \<noteq> []" and "nodes \<noteq> []"
    then obtain n0 ns where nodes: "nodes = n0 # ns"
      by (cases nodes) auto
    have "js_get ic (node_id n) \<noteq> Own (Count 0)" if "n \<in> set nodes" for n
      using ic all that np [of n] by auto
    then have "filter (\<lambda>n. js_get ic (node_id n) = Own (Count 0)) nodes = []"
      by (simp add: filter_empty_conv)
    then have "seed_queue nodes ic = [(node_id n0, 0)]"
      by (simp add: seed_queue_def nodes)
    with z have "map_of levels (node_id n0) = Some 0"
      by simp
    then show "level (hd nodes') = Some (Level 0)"
      by (simp add: nodes'_def nodes lev_def)
  qed
  from 1 2 3 4 5 show ?thesis
    by (intro exI [of _ nodes'] conjI)
qed

lemma unreached_prototype_name:
  "map level (projr (assign_levels [node ''a'', node ''constructor'', node ''b'']
       [edge ''constructor'' ''b'', edge ''b'' ''constructor''])) =
     [Some (Level 0), Some Prototype_member, Some (Level 0)]"
  by (simp add: level_eval)

text \<open>
  Claim C3 fails on the code. An edge whose \<^verbatim>\<open>from\<close> is not a node id makes \<^verbatim>\<open>adj[l.source]\<close>
  undefined and the \<^verbatim>\<open>push\<close> raises; an edge whose \<^verbatim>\<open>to\<close> is not a node id is enqueued and
  \<^verbatim>\<open>adj[id].forEach\<close> raises when it is dequeued. No node receives a level.
\<close>

theorem dangling_edge_type_error:
  "assign_levels [node ''a''] [edge ''x'' ''a''] = Inl TypeError \<and>
   assign_levels [node ''a''] [edge ''a'' ''x''] = Inl TypeError"
  by (simp add: level_eval)

text \<open>
  Claim C6 fails on the code for the same reason: on a non-empty node list with an edge to a
  missing node the computation raises instead of giving every node a level. (When the endpoints
  of all edges are node ids and no node id is a property name of \<^verbatim>\<open>Object.prototype\<close>, every
  node gets a non-negative level, 0 for the nodes without incoming edge:
  lemma \<open>closed_graph_assign_levels\<close>. A node that is not reached and whose id is such a name
  carries the inherited member instead: lemma \<open>unreached_prototype_name\<close>.)
\<close>

theorem level_assignment_edge_to_missing_node:
  "assign_levels [node ''a'', node ''b''] [edge ''a'' ''b'', edge ''b'' ''ghost''] = Inl TypeError"
  by (simp add: level_eval)

text \<open>
  Claim C7: on a graph that is a single cycle the computation returns (the loop ends and
  nothing is raised), and the assignment \<^verbatim>\<open>levels[id] = depth\<close> is executed exactly once for
  every node id (the ids of the assignments are distinct and are the node ids). After it each
  node carries the depth of its one assignment; the node id \<^verbatim>\<open>__proto__\<close> apart, whose
  assignment stores nothing and whose node carries \<^verbatim>\<open>Object.prototype\<close>.
\<close>

theorem single_cycle_levels:
  "single_cycle nodes edges cs \<Longrightarrow>
   \<exists>levels. compute_levels nodes edges = Inr levels \<and>
     distinct (map fst levels) \<and> set (map fst levels) = set (map node_id nodes) \<and>
     assign_levels nodes edges =
       Inr (map (\<lambda>n. n\<lparr>level := (if node_id n = ''__proto__'' then Some Prototype_member
                                   else map_option Level (map_of levels (node_id n)))\<rparr>) nodes)"
proof -
  assume "single_cycle nodes edges cs"
  from single_cycle_levels_lemma [OF this] obtain levels where
    res: "compute_levels nodes edges = Inr levels" and d: "distinct (map fst levels)"
    and s: "set (map fst levels) = set (map node_id nodes)"
    by blast
  have "Some (case js_get levels (node_id n) of
               Undefined \<Rightarrow> Level 0
             | Own d \<Rightarrow> Level (if d = 0 then 0 else d)
             | Inherited \<Rightarrow> Prototype_member) =
        (if node_id n = ''__proto__'' then Some Prototype_member
         else map_option Level (map_of levels (node_id n)))"
    if "n \<in> set nodes" for n
  proof (cases "node_id n = ''__proto__''")
    case True
    then show ?thesis by (simp add: js_get_proto)
  next
    case False
    from that s have "node_id n \<in> fst ` set levels"
      by auto
    then obtain d where m: "map_of levels (node_id n) = Some d"
      by (cases "map_of levels (node_id n)") (auto simp: map_of_eq_None_iff)
    with False have "js_get levels (node_id n) = Own d"
      by (intro js_get_own)
    with False m show ?thesis by simp
  qed
  then have "assign_levels nodes edges =
       Inr (map (\<lambda>n. n\<lparr>level := (if node_id n = ''__proto__'' then Some Prototype_member
                                   else map_option Level (map_of levels (node_id n)))\<rparr>) nodes)"
    using res by (simp add: assign_levels_def)
  with res d s show ?thesis by blast
qed

text \<open>
  Witness for C7: the cycle a, b, c with the nodes and the edges listed out of order, and the
  levels its nodes carry; and the cycle \<^verbatim>\<open>__proto__\<close>, a.
\<close>

theorem single_cycle_levels_witness:
  "single_cycle [node ''c'', node ''a'', node ''b'']
     [edge ''b'' ''c'', edge ''a'' ''b'', edge ''c'' ''a''] [''a'', ''b'', ''c''] \<and>
   (\<exists>levels. compute_levels [node ''c'', node ''a'', node ''b'']
       [edge ''b'' ''c'', edge ''a'' ''b'', edge ''c'' ''a''] = Inr levels \<and>
     distinct (map fst levels) \<and>
     set (map fst levels) = set (map node_id [node ''c'', node ''a'', node ''b''])) \<and>
   map level (projr (assign_levels [node ''c'', node ''a'', node ''b'']
       [edge ''b'' ''c'', edge ''a'' ''b'', edge ''c'' ''a''])) =
     [Some (Level 0), Some (Level 1), Some (Level 2)] \<and>
   map level (projr (assign_levels [node ''a'', node ''__proto__'']
       [edge ''a'' ''__proto__'', edge ''__proto__'' ''a''])) =
     [Some (Level 0), Some Prototype_member]"
proof -
  have c: "single_cycle [node ''c'', node ''a'', node ''b'']
     [edge ''b'' ''c'', edge ''a'' ''b'', edge ''c'' ''a''] [''a'', ''b'', ''c'']"
    by (auto simp: single_cycle_def node_def edge_def)
  have l: "map level (projr (assign_levels [node ''c'', node ''a'', node ''b'']
       [edge ''b'' ''c'', edge ''a'' ''b'', edge ''c'' ''a''])) =
     [Some (Level 0), Some (Level 1), Some (Level 2)]"
    by (simp add: level_eval)
  have p: "map level (projr (assign_levels [node ''a'', node ''__proto__'']
       [edge ''a'' ''__proto__'', edge ''__proto__'' ''a''])) =
     [Some (Level 0), Some Prototype_member]"
    by (simp add: level_eval)
  from single_cycle_levels [OF c] c l p show ?thesis
    by blast
qed

section \<open>Resilient structured-response extractor (extractJson)\<close>

text \<open>
  \<^verbatim>\<open>JSON.parse\<close> is a built-in of the JavaScript engine, not code of the repository. The
  extractor is modelled relative to it: \<open>extractJson\<close> takes the parser as its first argument,
  and the theorems about arbitrary inputs hold for every parser. For concrete inputs the
  theory gives a model \<open>JSON_parse\<close> of the built-in, after the JSON grammar (ECMA-404): a
  tokenizer and a parser over the tokens. Input strings are lists of 8-bit characters, that
  is, texts whose code units are below 256.
\<close>

text \<open>
  The values \<^verbatim>\<open>JSON.parse\<close> returns. Numbers are kept as exact rationals (the rounding to a
  double, and the sign of zero, are not modelled). A string is the list of its UTF-16 code
  units. An object is the list of its properties in creation order, without repeated keys.
\<close>

datatype json =
    JNull
  | JBool bool
  | JNumber rat
  | JString "nat list"
  | JArray "json list"
  | JObject "(nat list \<times> json) list"

text \<open>
  The tokens of a JSON text.
\<close>

datatype token =
    TLBrace | TRBrace | TLBracket | TRBracket | TColon | TComma
  | TString "nat list" | TNumber rat | TTrue | TFalse | TNull

text \<open>
  The double quote and the backslash, named because they cannot be written inside a term.
\<close>

definition dquote :: char where "dquote = CHR 0x22"

definition backslash :: char where "backslash = CHR 0x5C"

text \<open>
  The four whitespace characters of JSON.
\<close>

definition json_ws :: "char \<Rightarrow> bool" where
  "json_ws c = (of_char c \<in> {9, 10, 13, 32 :: nat})"

text \<open>
  Escapes in string literals: four hexadecimal digits after \<^verbatim>\<open>u\<close>, and the single-character
  escapes.
\<close>

definition hex_value :: "char \<Rightarrow> nat option" where
  "hex_value c =
     (let n = (of_char c :: nat) in
      if 48 \<le> n \<and> n \<le> 57 then Some (n - 48)
      else if 65 \<le> n \<and> n \<le> 70 then Some (n - 55)
      else if 97 \<le> n \<and> n \<le> 102 then Some (n - 87)
      else None)"

definition hex4 :: "string \<Rightarrow> nat option" where
  "hex4 hs =
     (case map hex_value hs of
        [Some a, Some b, Some c, Some d] \<Rightarrow> Some (((a * 16 + b) * 16 + c) * 16 + d)
      | _ \<Rightarrow> None)"

definition escape_char :: "char \<Rightarrow> nat option" where
  "escape_char e =
     (if e = dquote then Some 34
      else if e = backslash then Some 92
      else if e = CHR ''/'' then Some 47
      else if e = CHR ''b'' then Some 8
      else if e = CHR ''f'' then Some 12
      else if e = CHR ''n'' then Some 10
      else if e = CHR ''r'' then Some 13
      else if e = CHR ''t'' then Some 9
      else None)"

text \<open>
  A string literal after its opening quote: the code units up to the closing quote, and the
  rest of the input. Control characters below 32 are not allowed unescaped.
\<close>

function lex_string :: "string \<Rightarrow> nat list \<Rightarrow> (nat list \<times> string) option" where
  "lex_string [] acc = None"
| "lex_string (c # cs) acc =
     (if c = dquote then Some (acc, cs)
      else if c = backslash then
        (case cs of
           [] \<Rightarrow> None
         | e # cs' \<Rightarrow>
             if e = CHR ''u'' then
               (case hex4 (take 4 cs') of
                  None \<Rightarrow> None
                | Some n \<Rightarrow> lex_string (drop 4 cs') (acc @ [n]))
             else
               (case escape_char e of
                  None \<Rightarrow> None
                | Some n \<Rightarrow> lex_string cs' (acc @ [n])))
      else if (of_char c :: nat) < 32 then None
      else lex_string cs (acc @ [of_char c]))"
  by pat_completeness auto
termination
  by (relation "measure (\<lambda>(s, acc). length s)") auto

lemma lex_string_shorter: "lex_string s acc = Some (v, rest) \<Longrightarrow> length rest < length s"
proof (induction s acc rule: lex_string.induct)
  case (1 acc)
  then show ?case by simp
next
  case (2 c cs acc)
  show ?case
  proof (cases "c = dquote")
    case True
    with "2.prems" show ?thesis by simp
  next
    case nq: False
    show ?thesis
    proof (cases "c = backslash")
      case True
      with nq "2.prems" obtain e cs' where cs: "cs = e # cs'"
        by (cases cs) auto
      show ?thesis
      proof (cases "e = CHR ''u''")
        case u: True
        with nq True cs "2.prems" obtain n where n: "hex4 (take 4 cs') = Some n"
          and r: "lex_string (drop 4 cs') (acc @ [n]) = Some (v, rest)"
          by (auto split: option.splits)
        from "2.IH"(1) [OF nq True cs u n r] have "length rest < length (drop 4 cs')" .
        with cs show ?thesis by simp
      next
        case nu: False
        with nq True cs "2.prems" obtain n where n: "escape_char e = Some n"
          and r: "lex_string cs' (acc @ [n]) = Some (v, rest)"
          by (auto split: option.splits)
        from "2.IH"(2) [OF nq True cs nu n r] have "length rest < length cs'" .
        with cs show ?thesis by simp
      qed
    next
      case nb: False
      with nq "2.prems" have c32: "\<not> (of_char c :: nat) < 32"
        and r: "lex_string cs (acc @ [of_char c]) = Some (v, rest)"
        by (auto split: if_splits)
      from "2.IH"(3) [OF nq nb c32 r] show ?thesis by simp
    qed
  qed
qed

text \<open>
  A number literal: an optional minus, an integer part without leading zero, an optional
  fraction and an optional exponent.
\<close>

definition number_value :: "bool \<Rightarrow> string \<Rightarrow> int \<Rightarrow> rat" where
  "number_value neg ds e =
     (let m = (of_int (decimal_value ds) :: rat);
          v = (if 0 \<le> e then m * 10 ^ nat e else m / 10 ^ nat (- e))
      in if neg then - v else v)"

definition lex_sign :: "string \<Rightarrow> bool \<times> string" where
  "lex_sign s = (if take 1 s = ''-'' then (True, drop 1 s) else (False, s))"

definition lex_digits :: "string \<Rightarrow> string \<times> string" where
  "lex_digits s = (takeWhile is_digit s, dropWhile is_digit s)"

definition lex_frac :: "string \<Rightarrow> (string \<times> string) option" where
  "lex_frac s =
     (if take 1 s = ''.'' then
        (case lex_digits (drop 1 s) of (fp, r) \<Rightarrow> if fp = [] then None else Some (fp, r))
      else Some ([], s))"

definition lex_exp :: "string \<Rightarrow> (int \<times> string) option" where
  "lex_exp s =
     (if take 1 s = ''e'' \<or> take 1 s = ''E'' then
        (case (if take 1 (drop 1 s) = ''-'' then (True, drop 2 s)
               else if take 1 (drop 1 s) = ''+'' then (False, drop 2 s)
               else (False, drop 1 s)) of
           (eneg, s') \<Rightarrow>
             (case lex_digits s' of
                (ep, r) \<Rightarrow>
                  if ep = [] then None
                  else Some (if eneg then - decimal_value ep else decimal_value ep, r)))
      else Some (0, s))"

definition lex_number :: "string \<Rightarrow> (rat \<times> string) option" where
  "lex_number s =
     (case lex_sign s of
        (neg, s1) \<Rightarrow>
          (case lex_digits s1 of
             (ip, s2) \<Rightarrow>
               if ip = [] \<or> (1 < length ip \<and> take 1 ip = ''0'') then None
               else
                 (case lex_frac s2 of
                    None \<Rightarrow> None
                  | Some (fp, s3) \<Rightarrow>
                      (case lex_exp s3 of
                         None \<Rightarrow> None
                       | Some (e, s4) \<Rightarrow>
                           Some (number_value neg (ip @ fp) (e - int (length fp)), s4)))))"

lemma length_dropWhile_less: "takeWhile P xs \<noteq> [] \<Longrightarrow> length (dropWhile P xs) < length xs"
  by (cases xs) (auto simp: le_imp_less_Suc length_dropWhile_le split: if_splits)

lemma lex_sign_length: "lex_sign s = (neg, r) \<Longrightarrow> length r \<le> length s"
  by (auto simp: lex_sign_def split: if_splits)

lemma lex_digits_length: "lex_digits s = (ds, r) \<Longrightarrow> length r \<le> length s"
  by (auto simp: lex_digits_def length_dropWhile_le)

lemma lex_digits_length_less: "lex_digits s = (ds, r) \<Longrightarrow> ds \<noteq> [] \<Longrightarrow> length r < length s"
  by (auto simp: lex_digits_def intro: length_dropWhile_less)

lemma lex_frac_length: "lex_frac s = Some (fp, r) \<Longrightarrow> length r \<le> length s"
proof (cases "take 1 s = ''.''")
  case True
  assume a: "lex_frac s = Some (fp, r)"
  obtain fp' r' where d: "lex_digits (drop 1 s) = (fp', r')"
    by (cases "lex_digits (drop 1 s)")
  with a True have "r = r'"
    by (simp add: lex_frac_def split: if_splits)
  with lex_digits_length [OF d] show ?thesis by simp
next
  case False
  assume "lex_frac s = Some (fp, r)"
  with False show ?thesis by (simp add: lex_frac_def)
qed

lemma lex_exp_length: "lex_exp s = Some (e, r) \<Longrightarrow> length r \<le> length s"
proof (cases "take 1 s = ''e'' \<or> take 1 s = ''E''")
  case True
  assume a: "lex_exp s = Some (e, r)"
  define p where "p = (if take 1 (drop 1 s) = ''-'' then (True, drop 2 s)
               else if take 1 (drop 1 s) = ''+'' then (False, drop 2 s)
               else (False, drop 1 s))"
  obtain eneg s' where p': "p = (eneg, s')" by (cases p)
  then have s': "length s' \<le> length s"
    by (auto simp: p_def split: if_splits)
  obtain ep r' where d: "lex_digits s' = (ep, r')"
    by (cases "lex_digits s'")
  from a True p' d have "r = r'"
    unfolding lex_exp_def p_def [symmetric] by (simp split: if_splits)
  with lex_digits_length [OF d] s' show ?thesis by simp
next
  case False
  assume "lex_exp s = Some (e, r)"
  with False show ?thesis by (simp add: lex_exp_def)
qed

lemma lex_number_shorter: "lex_number s = Some (v, rest) \<Longrightarrow> length rest < length s"
proof -
  assume a: "lex_number s = Some (v, rest)"
  obtain neg s1 where 1: "lex_sign s = (neg, s1)" by (cases "lex_sign s")
  obtain ip s2 where 2: "lex_digits s1 = (ip, s2)" by (cases "lex_digits s1")
  from a 1 2 have ip: "ip \<noteq> []"
    by (auto simp: lex_number_def split: if_splits)
  from a 1 2 ip obtain fp s3 where 3: "lex_frac s2 = Some (fp, s3)"
    by (cases "lex_frac s2") (auto simp: lex_number_def split: if_splits)
  from a 1 2 3 ip obtain e s4 where 4: "lex_exp s3 = Some (e, s4)"
    by (cases "lex_exp s3") (auto simp: lex_number_def split: if_splits)
  from a 1 2 3 4 have "rest = s4"
    by (auto simp: lex_number_def split: if_splits)
  with lex_sign_length [OF 1] lex_digits_length_less [OF 2 ip] lex_frac_length [OF 3]
    lex_exp_length [OF 4]
  show ?thesis by simp
qed

text \<open>
  The tokenizer. It fails (\<open>None\<close>) on any character that cannot start a token.
\<close>

function lex :: "string \<Rightarrow> token list option" where
  "lex [] = Some []"
| "lex (c # cs) =
     (if json_ws c then lex cs
      else if c = CHR ''{'' then map_option (Cons TLBrace) (lex cs)
      else if c = CHR ''}'' then map_option (Cons TRBrace) (lex cs)
      else if c = CHR ''['' then map_option (Cons TLBracket) (lex cs)
      else if c = CHR '']'' then map_option (Cons TRBracket) (lex cs)
      else if c = CHR '':'' then map_option (Cons TColon) (lex cs)
      else if c = CHR '','' then map_option (Cons TComma) (lex cs)
      else if c = dquote then
        (case lex_string cs [] of
           None \<Rightarrow> None
         | Some (s, rest) \<Rightarrow> map_option (Cons (TString s)) (lex rest))
      else if c = CHR ''-'' \<or> is_digit c then
        (case lex_number (c # cs) of
           None \<Rightarrow> None
         | Some (n, rest) \<Rightarrow> map_option (Cons (TNumber n)) (lex rest))
      else if take 4 (c # cs) = ''true'' then map_option (Cons TTrue) (lex (drop 4 (c # cs)))
      else if take 5 (c # cs) = ''false'' then map_option (Cons TFalse) (lex (drop 5 (c # cs)))
      else if take 4 (c # cs) = ''null'' then map_option (Cons TNull) (lex (drop 4 (c # cs)))
      else None)"
  by pat_completeness auto
termination
proof (relation "measure length")
  fix c cs x2 x y
  assume "lex_string cs [] = Some x2" "(x, y) = x2"
  then have "lex_string cs [] = Some (x, y)" by simp
  then have "length y < length cs" by (rule lex_string_shorter)
  then show "(y, c # cs) \<in> measure length" by simp
next
  fix c cs x2 x y
  assume "lex_number (c # cs) = Some x2" "(x, y) = x2"
  then have "lex_number (c # cs) = Some (x, y)" by simp
  then have "length y < length (c # cs)" by (rule lex_number_shorter)
  then show "(y, c # cs) \<in> measure length" by simp
qed simp_all

text \<open>
  The parser over the tokens, with an explicit stack of the arrays and objects that are
  open: \<open>parse_value\<close> expects a value, \<open>parse_after\<close> has just read the value \<open>v\<close>. A later
  duplicate of a key overrides the earlier value at its position.
\<close>

datatype frame = FArr "json list" | FObj "(nat list \<times> json) list" "nat list"

fun parse_value :: "frame list \<Rightarrow> token list \<Rightarrow> json option"
  and parse_after :: "json \<Rightarrow> frame list \<Rightarrow> token list \<Rightarrow> json option" where
  "parse_value st [] = None"
| "parse_value st (t # ts) =
     (case t of
        TString s \<Rightarrow> parse_after (JString s) st ts
      | TNumber n \<Rightarrow> parse_after (JNumber n) st ts
      | TTrue \<Rightarrow> parse_after (JBool True) st ts
      | TFalse \<Rightarrow> parse_after (JBool False) st ts
      | TNull \<Rightarrow> parse_after JNull st ts
      | TLBracket \<Rightarrow>
          (case ts of
             TRBracket # ts' \<Rightarrow> parse_after (JArray []) st ts'
           | _ \<Rightarrow> parse_value (FArr [] # st) ts)
      | TLBrace \<Rightarrow>
          (case ts of
             TRBrace # ts' \<Rightarrow> parse_after (JObject []) st ts'
           | TString k # TColon # ts' \<Rightarrow> parse_value (FObj [] k # st) ts'
           | _ \<Rightarrow> None)
      | _ \<Rightarrow> None)"
| "parse_after v [] ts = (if ts = [] then Some v else None)"
| "parse_after v (FArr xs # st) ts =
     (case ts of
        TComma # ts' \<Rightarrow> parse_value (FArr (xs @ [v]) # st) ts'
      | TRBracket # ts' \<Rightarrow> parse_after (JArray (xs @ [v])) st ts'
      | _ \<Rightarrow> None)"
| "parse_after v (FObj kvs k # st) ts =
     (case ts of
        TComma # TString k' # TColon # ts' \<Rightarrow> parse_value (FObj (AList.update k v kvs) k' # st) ts'
      | TRBrace # ts' \<Rightarrow> parse_after (JObject (AList.update k v kvs)) st ts'
      | _ \<Rightarrow> None)"

text \<open>
  The model of \<^verbatim>\<open>JSON.parse\<close>: the value of the text, or a \<^verbatim>\<open>SyntaxError\<close>.
\<close>

definition JSON_parse :: "string \<Rightarrow> js_error + json" where
  "JSON_parse text =
     (case lex text of
        None \<Rightarrow> Inl SyntaxError
      | Some ts \<Rightarrow>
          (case parse_value [] ts of
             None \<Rightarrow> Inl SyntaxError
           | Some v \<Rightarrow> Inr v))"

text \<open>
  The characters \<^verbatim>\<open>\s\<close> matches and \<^verbatim>\<open>trim\<close> removes, among the code units below 256.
\<close>

definition is_space :: "char \<Rightarrow> bool" where
  "is_space c = (of_char c \<in> {9, 10, 11, 12, 13, 32, 160 :: nat})"

text \<open>
  \<^verbatim>\<open>s.replace(/M\s*/g, '')\<close> for a literal marker \<open>m\<close>: scanning from the left, every
  occurrence of the marker is removed together with the whitespace after it.
\<close>

function remove_all :: "string \<Rightarrow> string \<Rightarrow> string" where
  "remove_all m [] = []"
| "remove_all m (c # cs) =
     (if m \<noteq> [] \<and> take (length m) (c # cs) = m
      then remove_all m (dropWhile is_space (drop (length m) (c # cs)))
      else c # remove_all m cs)"
  by pat_completeness auto
termination
proof (relation "measure (\<lambda>(m, s). length s)")
  fix m :: string and c :: char and cs :: string
  assume "m \<noteq> [] \<and> take (length m) (c # cs) = m"
  then have "0 < length m" by simp
  then have "length (drop (length m) (c # cs)) < length (c # cs)"
    by simp
  with length_dropWhile_le [of is_space "drop (length m) (c # cs)"]
  have "length (dropWhile is_space (drop (length m) (c # cs))) < length (c # cs)"
    by linarith
  then show "((m, dropWhile is_space (drop (length m) (c # cs))), (m, c # cs)) \<in> measure (\<lambda>(m, s). length s)"
    by simp
qed simp_all

text \<open>
  \<^verbatim>\<open>String.prototype.trim\<close>, and step 2 of the extractor:
  \<^verbatim>\<open>text.replace(/```json\s*/g, '').replace(/```\s*/g, '').trim()\<close>.
\<close>

definition trim :: "string \<Rightarrow> string" where
  "trim s = rev (dropWhile is_space (rev (dropWhile is_space s)))"

definition strip_code_fences :: "string \<Rightarrow> string" where
  "strip_code_fences text = trim (remove_all ''```'' (remove_all ''```json'' text))"

text \<open>
  \<^verbatim>\<open>indexOf\<close> (-1 when the character is absent) and \<^verbatim>\<open>substring(a, b)\<close> for
  \<open>0 \<le> a \<le> b\<close>.
\<close>

definition indexOf :: "char \<Rightarrow> string \<Rightarrow> int" where
  "indexOf c s = findIndex (\<lambda>x. x = c) s"

definition substring :: "string \<Rightarrow> int \<Rightarrow> int \<Rightarrow> string" where
  "substring s a b = take (nat b - nat a) (drop (nat a) s)"

text \<open>
  The \<^verbatim>\<open>for\<close> loop of step 4, on the text from index \<open>i\<close> on. The result is \<^verbatim>\<open>endIndex\<close>:
  the index of the closing brace at which the count returns to zero, or -1 when the text ends
  first.
\<close>

fun brace_scan :: "string \<Rightarrow> int \<Rightarrow> int \<Rightarrow> bool \<Rightarrow> bool \<Rightarrow> int" where
  "brace_scan [] i braceCount inString escaped = - 1"
| "brace_scan (char # rest) i braceCount inString escaped =
     (if inString then
        (if escaped then brace_scan rest (i + 1) braceCount inString False
         else if char = backslash then brace_scan rest (i + 1) braceCount inString True
         else if char = dquote then brace_scan rest (i + 1) braceCount False escaped
         else brace_scan rest (i + 1) braceCount inString escaped)
      else
        (if char = CHR ''{'' then brace_scan rest (i + 1) (braceCount + 1) inString escaped
         else if char = CHR ''}'' then
           (if braceCount - 1 = 0 then i
            else brace_scan rest (i + 1) (braceCount - 1) inString escaped)
         else if char = dquote then brace_scan rest (i + 1) braceCount True escaped
         else brace_scan rest (i + 1) braceCount inString escaped))"

text \<open>
  \<^verbatim>\<open>cleanText.match(/\{[\s\S]*\}/)\<close>: from the first opening brace to the last closing brace
  after it, \<open>None\<close> when there is no such pair.
\<close>

definition regex_match :: "string \<Rightarrow> string option" where
  "regex_match s =
     (case dropWhile (\<lambda>c. c \<noteq> CHR ''{'') s of
        [] \<Rightarrow> None
      | b # rest \<Rightarrow>
          if CHR ''}'' \<in> set rest
          then Some (b # rev (dropWhile (\<lambda>c. c \<noteq> CHR ''}'') (rev rest)))
          else None)"

text \<open>
  Step 5, inside its \<^verbatim>\<open>try\<close>: the regular expression's match is parsed; \<^verbatim>\<open>null\<close> when there
  is no match or the parse fails.
\<close>

definition last_resort :: "(string \<Rightarrow> js_error + json) \<Rightarrow> string \<Rightarrow> json" where
  "last_resort parse cleanText =
     (case regex_match cleanText of
        None \<Rightarrow> JNull
      | Some jsonMatch \<Rightarrow> (case parse jsonMatch of Inr v \<Rightarrow> v | Inl e \<Rightarrow> JNull))"

text \<open>
  The extractor. Every \<^verbatim>\<open>try { return JSON.parse(...) } catch (e) { }\<close> is a case
  distinction on the parser's result; \<open>JNull\<close> is the \<^verbatim>\<open>null\<close> the function returns.
\<close>

definition extractJson :: "(string \<Rightarrow> js_error + json) \<Rightarrow> string \<Rightarrow> json" where
  "extractJson parse text =
     (case parse text of
        Inr v \<Rightarrow> v
      | Inl e \<Rightarrow>
          (let cleanText = strip_code_fences text in
           case parse cleanText of
             Inr v \<Rightarrow> v
           | Inl e \<Rightarrow>
               (let startIndex = indexOf CHR ''{'' cleanText in
                if startIndex = - 1 then JNull
                else
                  (let endIndex = brace_scan (drop (nat startIndex) cleanText) startIndex 0 False False in
                   if endIndex \<noteq> - 1 then
                     (case parse (substring cleanText startIndex (endIndex + 1)) of
                        Inr v \<Rightarrow> v
                      | Inl e \<Rightarrow> last_resort parse cleanText)
                   else last_resort parse cleanText))))"

text \<open>
  For stating the fallback order: the candidate texts the extractor hands to the parser, in
  order (the whole text, the text without fences, the brace scan's substring and the regular
  expression's match, the last two when they exist), and the first value parsed from a list
  of candidates.
\<close>

definition brace_candidate :: "string \<Rightarrow> string option" where
  "brace_candidate cleanText =
     (let startIndex = indexOf CHR ''{'' cleanText in
      if startIndex = - 1 then None
      else
        (let endIndex = brace_scan (drop (nat startIndex) cleanText) startIndex 0 False False in
         if endIndex = - 1 then None
         else Some (substring cleanText startIndex (endIndex + 1))))"

definition attempts :: "string \<Rightarrow> string list" where
  "attempts text =
     (let cleanText = strip_code_fences text in
      [text, cleanText]
      @ (case brace_candidate cleanText of None \<Rightarrow> [] | Some candidate \<Rightarrow> [candidate])
      @ (case regex_match cleanText of None \<Rightarrow> [] | Some jsonMatch \<Rightarrow> [jsonMatch]))"

fun first_success :: "(string \<Rightarrow> js_error + json) \<Rightarrow> string list \<Rightarrow> json" where
  "first_success parse [] = JNull"
| "first_success parse (s # ss) = (case parse s of Inr v \<Rightarrow> v | Inl e \<Rightarrow> first_success parse ss)"

text \<open>
  String-aware brace balance, as a grammar. \<open>str_body\<close> is the inside of a quoted string: any
  characters but the quote and the backslash, and a backslash followed by any character.
  \<open>balanced\<close> is a text of quoted strings, brace groups and other characters.
\<close>

inductive str_body :: "string \<Rightarrow> bool" where
  str_end: "str_body []"
| str_char: "c \<noteq> dquote \<Longrightarrow> c \<noteq> backslash \<Longrightarrow> str_body cs \<Longrightarrow> str_body (c # cs)"
| str_escape: "str_body cs \<Longrightarrow> str_body (backslash # c # cs)"

inductive balanced :: "string \<Rightarrow> bool" where
  bal_end: "balanced []"
| bal_char: "c \<noteq> CHR ''{'' \<Longrightarrow> c \<noteq> CHR ''}'' \<Longrightarrow> c \<noteq> dquote \<Longrightarrow> balanced cs \<Longrightarrow> balanced (c # cs)"
| bal_string: "str_body b \<Longrightarrow> balanced cs \<Longrightarrow> balanced (dquote # b @ dquote # cs)"
| bal_group: "balanced b \<Longrightarrow> balanced cs \<Longrightarrow> balanced (CHR ''{'' # b @ CHR ''}'' # cs)"

lemma findIndex_from_lower: "0 \<le> i \<Longrightarrow> findIndex_from i p xs = - 1 \<or> i \<le> findIndex_from i p xs"
proof (induction xs arbitrary: i)
  case Nil
  then show ?case by simp
next
  case (Cons x xs)
  from Cons.IH [of "i + 1"] Cons.prems show ?case by auto
qed

lemma findIndex_from_minus_one: "0 \<le> i \<Longrightarrow> findIndex_from i p xs = - 1 \<Longrightarrow> \<forall>x\<in>set xs. \<not> p x"
proof (induction xs arbitrary: i)
  case Nil
  then show ?case by simp
next
  case (Cons x xs)
  from Cons.prems have npx: "\<not> p x"
    by (auto split: if_splits)
  with Cons.prems have "findIndex_from (i + 1) p xs = - 1"
    by simp
  with Cons.IH [of "i + 1"] Cons.prems have "\<forall>x\<in>set xs. \<not> p x"
    by simp
  with npx show ?case by simp
qed

lemma indexOf_minus_one: "indexOf c s = - 1 \<longleftrightarrow> c \<notin> set s"
proof
  assume "indexOf c s = - 1"
  then have "\<forall>x\<in>set s. \<not> x = c"
    unfolding indexOf_def findIndex_def by (intro findIndex_from_minus_one [of 0]) simp_all
  then show "c \<notin> set s" by auto
next
  assume "c \<notin> set s"
  then have "\<forall>x\<in>set s. \<not> x = c" by auto
  then show "indexOf c s = - 1"
    unfolding indexOf_def findIndex_def by (rule findIndex_from_none)
qed

lemma regex_match_no_brace: "CHR ''{'' \<notin> set s \<Longrightarrow> regex_match s = None"
proof -
  assume "CHR ''{'' \<notin> set s"
  then have dw: "dropWhile (\<lambda>c. c \<noteq> CHR ''{'') s = []"
    by auto
  show ?thesis
    unfolding regex_match_def dw by simp
qed

lemma last_resort_first_success:
  "last_resort parse s = first_success parse (case regex_match s of None \<Rightarrow> [] | Some m \<Rightarrow> [m])"
  by (simp add: last_resort_def split: option.splits sum.splits)

lemma extractJson_chain: "extractJson parse text = first_success parse (attempts text)"
proof (cases "parse text")
  case (Inr v)
  then show ?thesis
    by (simp add: extractJson_def attempts_def Let_def)
next
  case t: (Inl e)
  define c where "c = strip_code_fences text"
  show ?thesis
  proof (cases "parse c")
    case (Inr v)
    with t show ?thesis
      by (simp add: extractJson_def attempts_def Let_def c_def)
  next
    case cl: (Inl e')
    show ?thesis
    proof (cases "indexOf CHR ''{'' c = - 1")
      case True
      then have "regex_match c = None"
        by (simp add: indexOf_minus_one regex_match_no_brace)
      with t cl True show ?thesis
        by (simp add: extractJson_def attempts_def Let_def c_def [symmetric] brace_candidate_def)
    next
      case False
      show ?thesis
      proof (cases "brace_scan (drop (nat (indexOf CHR ''{'' c)) c) (indexOf CHR ''{'' c) 0 False False = - 1")
        case True
        with t cl False show ?thesis
          by (simp add: extractJson_def attempts_def Let_def c_def [symmetric] brace_candidate_def
              last_resort_first_success)
      next
        case e: False
        with t cl False show ?thesis
          by (simp add: extractJson_def attempts_def Let_def c_def [symmetric] brace_candidate_def
              last_resort_first_success split: sum.splits)
      qed
    qed
  qed
qed

lemma first_success_null_iff:
  "first_success parse ss = JNull \<Longrightarrow>
   (\<forall>s\<in>set ss. \<exists>e. parse s = Inl e) \<or> (\<exists>s\<in>set ss. parse s = Inr JNull)"
proof (induction ss)
  case Nil
  then show ?case by simp
next
  case (Cons s ss)
  show ?case
  proof (cases "parse s")
    case (Inl e)
    with Cons.prems have "first_success parse ss = JNull" by simp
    from Cons.IH [OF this] Inl show ?thesis by auto
  next
    case (Inr v)
    with Cons.prems have "v = JNull" by simp
    with Inr show ?thesis by simp
  qed
qed

lemma first_success_all_fail:
  "\<forall>s\<in>set ss. \<exists>e. parse s = Inl e \<Longrightarrow> first_success parse ss = JNull"
  by (induction ss) auto

lemma first_success_value:
  "first_success parse ss = v \<Longrightarrow> v \<noteq> JNull \<Longrightarrow>
   \<exists>k<length ss. parse (ss ! k) = Inr v \<and> (\<forall>j<k. \<exists>e. parse (ss ! j) = Inl e)"
proof (induction ss)
  case Nil
  then show ?case by simp
next
  case (Cons s ss)
  show ?case
  proof (cases "parse s")
    case (Inr w)
    with Cons.prems have "parse ((s # ss) ! 0) = Inr v" by simp
    then show ?thesis by (intro exI [of _ 0]) simp
  next
    case (Inl e)
    with Cons.prems have "first_success parse ss = v" by simp
    from Cons.IH [OF this Cons.prems(2)] obtain k where
      k: "k < length ss" "parse (ss ! k) = Inr v" "\<forall>j<k. \<exists>e. parse (ss ! j) = Inl e"
      by blast
    have "\<forall>j<Suc k. \<exists>e. parse ((s # ss) ! j) = Inl e"
    proof (intro allI impI)
      fix j assume "j < Suc k"
      with k(3) Inl show "\<exists>e. parse ((s # ss) ! j) = Inl e"
        by (cases j) auto
    qed
    with k(1,2) show ?thesis
      by (intro exI [of _ "Suc k"]) simp
  qed
qed

lemma special_chars_distinct [simp]:
  "dquote \<noteq> backslash" "backslash \<noteq> dquote"
  "dquote \<noteq> CHR ''{''" "dquote \<noteq> CHR ''}''" "backslash \<noteq> CHR ''{''" "backslash \<noteq> CHR ''}''"
  "CHR ''{'' \<noteq> dquote" "CHR ''}'' \<noteq> dquote"
  by (simp_all add: dquote_def backslash_def)

lemma scan_string_body:
  "str_body b \<Longrightarrow>
   brace_scan (b @ dquote # rest) i n True False = brace_scan rest (i + int (length b) + 1) n False False"
proof (induction b arbitrary: i rule: str_body.induct)
  case str_end
  then show ?case by simp
next
  case (str_char c cs)
  from str_char.hyps(1,2) str_char.IH [of "i + 1"] show ?case
    by (simp add: algebra_simps)
next
  case (str_escape cs c)
  from str_escape.IH [of "i + 2"] show ?case
    by (simp add: algebra_simps)
qed

lemma scan_balanced:
  "balanced b \<Longrightarrow> 0 < n \<Longrightarrow>
   brace_scan (b @ rest) i n False False = brace_scan rest (i + int (length b)) n False False"
proof (induction b arbitrary: i n rest rule: balanced.induct)
  case bal_end
  then show ?case by simp
next
  case (bal_char c cs)
  from bal_char.hyps(1,2,3) bal_char.IH [OF bal_char.prems, of rest "i + 1"] show ?case
    by (simp add: algebra_simps)
next
  case (bal_string b cs)
  have "brace_scan ((dquote # b @ dquote # cs) @ rest) i n False False =
        brace_scan (b @ dquote # (cs @ rest)) (i + 1) n True False"
    by simp
  also have "\<dots> = brace_scan (cs @ rest) (i + 1 + int (length b) + 1) n False False"
    using bal_string.hyps(1) by (rule scan_string_body)
  also have "\<dots> = brace_scan rest (i + 1 + int (length b) + 1 + int (length cs)) n False False"
    using bal_string.prems by (rule bal_string.IH)
  finally show ?case by (simp add: algebra_simps)
next
  case (bal_group b cs)
  from bal_group.prems have n1: "0 < n + 1" by simp
  have "brace_scan ((CHR ''{'' # b @ CHR ''}'' # cs) @ rest) i n False False =
        brace_scan (b @ (CHR ''}'' # cs @ rest)) (i + 1) (n + 1) False False"
    by simp
  also have "\<dots> = brace_scan (CHR ''}'' # cs @ rest) (i + 1 + int (length b)) (n + 1) False False"
    using n1 by (rule bal_group.IH(1))
  also have "\<dots> = brace_scan (cs @ rest) (i + 1 + int (length b) + 1) n False False"
    using bal_group.prems by simp
  also have "\<dots> = brace_scan rest (i + 1 + int (length b) + 1 + int (length cs)) n False False"
    using bal_group.prems by (rule bal_group.IH(2))
  finally show ?case by (simp add: algebra_simps)
qed

lemma scan_object:
  assumes "balanced body"
  shows "brace_scan (CHR ''{'' # body @ CHR ''}'' # post) i 0 False False = i + 1 + int (length body)"
proof -
  have "brace_scan (CHR ''{'' # body @ CHR ''}'' # post) i 0 False False =
        brace_scan (body @ CHR ''}'' # post) (i + 1) 1 False False"
    by simp
  also have "\<dots> = brace_scan (CHR ''}'' # post) (i + 1 + int (length body)) 1 False False"
    using scan_balanced [OF assms, of 1 "CHR ''}'' # post" "i + 1"] by simp
  also have "\<dots> = i + 1 + int (length body)"
    by simp
  finally show ?thesis .
qed

lemma findIndex_from_first:
  "\<forall>x\<in>set xs. \<not> p x \<Longrightarrow> p y \<Longrightarrow> findIndex_from i p (xs @ y # ys) = i + int (length xs)"
  by (induction xs arbitrary: i) auto

lemma indexOf_first: "c \<notin> set pre \<Longrightarrow> indexOf c (pre @ c # rest) = int (length pre)"
proof -
  assume "c \<notin> set pre"
  then have "\<forall>x\<in>set pre. \<not> x = c" by auto
  then have "findIndex_from 0 (\<lambda>x. x = c) (pre @ c # rest) = 0 + int (length pre)"
    by (rule findIndex_from_first) simp
  then show ?thesis by (simp add: indexOf_def findIndex_def)
qed

lemma brace_scan_embedded:
  assumes bal: "balanced body" and pre: "CHR ''{'' \<notin> set pre"
  shows "indexOf CHR ''{'' (pre @ CHR ''{'' # body @ CHR ''}'' # post) = int (length pre)"
    and "brace_scan (drop (length pre) (pre @ CHR ''{'' # body @ CHR ''}'' # post)) (int (length pre)) 0 False False
          = int (length pre) + 1 + int (length body)"
    and "substring (pre @ CHR ''{'' # body @ CHR ''}'' # post) (int (length pre))
           (int (length pre) + 1 + int (length body) + 1) = CHR ''{'' # body @ [CHR ''}'']"
proof -
  show "indexOf CHR ''{'' (pre @ CHR ''{'' # body @ CHR ''}'' # post) = int (length pre)"
    using pre by (rule indexOf_first)
  show "brace_scan (drop (length pre) (pre @ CHR ''{'' # body @ CHR ''}'' # post)) (int (length pre)) 0 False False
          = int (length pre) + 1 + int (length body)"
    using scan_object [OF bal, of post "int (length pre)"] by simp
  have "nat (int (length pre) + 1 + int (length body) + 1) - length pre = Suc (Suc (length body))"
    by simp
  then show "substring (pre @ CHR ''{'' # body @ CHR ''}'' # post) (int (length pre))
           (int (length pre) + 1 + int (length body) + 1) = CHR ''{'' # body @ [CHR ''}'']"
    by (simp add: substring_def)
qed

lemma brace_candidate_embedded:
  assumes bal: "balanced body" and pre: "CHR ''{'' \<notin> set pre"
  shows "brace_candidate (pre @ CHR ''{'' # body @ CHR ''}'' # post) = Some (CHR ''{'' # body @ [CHR ''}''])"
  using brace_scan_embedded [OF bal pre, of post]
  by (simp add: brace_candidate_def Let_def)

lemma take_length_iff: "take (length m) s = m \<longleftrightarrow> (\<exists>r. s = m @ r)"
proof
  assume "take (length m) s = m"
  then have "s = m @ drop (length m) s"
    using append_take_drop_id [of "length m" s] by simp
  then show "\<exists>r. s = m @ r" ..
next
  assume "\<exists>r. s = m @ r"
  then show "take (length m) s = m" by auto
qed

lemma remove_all_match:
  "m \<noteq> [] \<Longrightarrow> s = m @ r \<Longrightarrow> remove_all m s = remove_all m (dropWhile is_space r)"
proof -
  assume m: "m \<noteq> []" and s: "s = m @ r"
  then have "s \<noteq> []" by simp
  then obtain c cs where cs: "s = c # cs"
    unfolding neq_Nil_conv by blast
  from s have "take (length m) s = m" by simp
  with m cs have "remove_all m s = remove_all m (dropWhile is_space (drop (length m) s))"
    by simp
  with s show ?thesis by simp
qed

lemma remove_all_no_match:
  "\<nexists>r. c # cs = m @ r \<Longrightarrow> remove_all m (c # cs) = c # remove_all m cs"
  using take_length_iff [of m "c # cs"] by simp

lemma fence_two:
  assumes "\<nexists>r. cs = CHR ''`'' # CHR ''`'' # r"
  shows "\<nexists>r. remove_all ''```'' cs = CHR ''`'' # CHR ''`'' # r"
proof (cases cs)
  case Nil
  then show ?thesis by simp
next
  case (Cons d ds)
  from assms Cons have nm: "\<nexists>r. d # ds = ''```'' @ r"
    by auto
  then have r: "remove_all ''```'' (d # ds) = d # remove_all ''```'' ds"
    by (rule remove_all_no_match)
  show ?thesis
  proof (cases ds)
    case Nil
    with r Cons show ?thesis by simp
  next
    case ds: (Cons e es)
    show ?thesis
    proof (cases "d = CHR ''`''")
      case False
      with r Cons show ?thesis by simp
    next
      case True
      with assms Cons ds have e: "e \<noteq> CHR ''`''" by simp
      then have "\<nexists>r. e # es = ''```'' @ r" by simp
      then have "remove_all ''```'' (e # es) = e # remove_all ''```'' es"
        by (rule remove_all_no_match)
      with r Cons ds e show ?thesis by simp
    qed
  qed
qed

lemma fence_not_prefix: "\<nexists>r. remove_all ''```'' s = ''```'' @ r"
proof (induction s rule: length_induct)
  case (1 s)
  show ?case
  proof (cases s)
    case Nil
    then show ?thesis by simp
  next
    case (Cons c cs)
    show ?thesis
    proof (cases "\<exists>r. s = ''```'' @ r")
      case True
      then obtain r where r: "s = ''```'' @ r" ..
      then have eq: "remove_all ''```'' s = remove_all ''```'' (dropWhile is_space r)"
        by (intro remove_all_match) simp_all
      have "length (dropWhile is_space r) \<le> length r"
        by (rule length_dropWhile_le)
      with r have "length (dropWhile is_space r) < length s"
        by simp
      with 1 have "\<nexists>q. remove_all ''```'' (dropWhile is_space r) = ''```'' @ q"
        by blast
      with eq show ?thesis by simp
    next
      case False
      with Cons have "\<nexists>r. c # cs = ''```'' @ r" by simp
      then have r: "remove_all ''```'' (c # cs) = c # remove_all ''```'' cs"
        by (rule remove_all_no_match)
      show ?thesis
      proof (cases "c = CHR ''`''")
        case c: False
        with r Cons show ?thesis by simp
      next
        case c: True
        with False Cons have "\<nexists>r. cs = CHR ''`'' # CHR ''`'' # r"
          by simp
        then have "\<nexists>r. remove_all ''```'' cs = CHR ''`'' # CHR ''`'' # r"
          by (rule fence_two)
        with r Cons show ?thesis by simp
      qed
    qed
  qed
qed

lemma fence_nowhere: "remove_all ''```'' s \<noteq> u @ ''```'' @ v"
proof (induction s arbitrary: u rule: length_induct)
  case (1 s)
  show ?case
  proof (cases s)
    case Nil
    then show ?thesis by simp
  next
    case (Cons c cs)
    show ?thesis
    proof (cases "\<exists>r. s = ''```'' @ r")
      case True
      then obtain r where r: "s = ''```'' @ r" ..
      then have eq: "remove_all ''```'' s = remove_all ''```'' (dropWhile is_space r)"
        by (intro remove_all_match) simp_all
      have "length (dropWhile is_space r) \<le> length r"
        by (rule length_dropWhile_le)
      with r have "length (dropWhile is_space r) < length s"
        by simp
      with 1 have "remove_all ''```'' (dropWhile is_space r) \<noteq> u @ ''```'' @ v"
        by blast
      with eq show ?thesis by simp
    next
      case False
      with Cons have "\<nexists>r. c # cs = ''```'' @ r" by simp
      then have r: "remove_all ''```'' (c # cs) = c # remove_all ''```'' cs"
        by (rule remove_all_no_match)
      show ?thesis
      proof (cases u)
        case Nil
        show ?thesis
        proof
          assume "remove_all ''```'' s = u @ ''```'' @ v"
          with Nil have "\<exists>r. remove_all ''```'' s = ''```'' @ r"
            by simp
          with fence_not_prefix [of s] show False by simp
        qed
      next
        case u: (Cons x u')
        from Cons 1 have "remove_all ''```'' cs \<noteq> u' @ ''```'' @ v"
          by simp
        with r Cons u show ?thesis by simp
      qed
    qed
  qed
qed

lemma trim_decompose: "\<exists>a b. s = a @ trim s @ b"
proof -
  define x where "x = dropWhile is_space s"
  have 1: "s = takeWhile is_space s @ x"
    by (simp add: x_def)
  have "rev x = takeWhile is_space (rev x) @ dropWhile is_space (rev x)"
    by simp
  then have "rev (rev x) = rev (takeWhile is_space (rev x) @ dropWhile is_space (rev x))"
    by simp
  then have 2: "x = rev (dropWhile is_space (rev x)) @ rev (takeWhile is_space (rev x))"
    by (simp only: rev_rev_ident rev_append)
  have "trim s = rev (dropWhile is_space (rev x))"
    by (simp add: trim_def x_def)
  with 1 2 have "s = takeWhile is_space s @ trim s @ rev (takeWhile is_space (rev x))"
    by simp
  then show ?thesis by blast
qed

lemma strip_code_fences_no_fence: "strip_code_fences text \<noteq> u @ ''```'' @ v"
proof
  assume a: "strip_code_fences text = u @ ''```'' @ v"
  define s where "s = remove_all ''```'' (remove_all ''```json'' text)"
  from trim_decompose [of s] obtain a b where "s = a @ trim s @ b"
    by blast
  with a have "s = (a @ u) @ ''```'' @ (v @ b)"
    by (simp add: strip_code_fences_def s_def)
  with fence_nowhere [of "remove_all ''```json'' text" "a @ u" "v @ b"] show False
    by (simp add: s_def)
qed

lemma remove_all_empty_marker: "remove_all [] s = s"
  by (induction s) simp_all

lemma remove_all_head:
  assumes "c \<notin> set m"
  shows "remove_all m (c # b) = c # remove_all m b"
proof (cases m)
  case Nil
  then show ?thesis by (simp add: remove_all_empty_marker)
next
  case (Cons x xs)
  have "\<nexists>r. c # b = m @ r"
  proof
    assume "\<exists>r. c # b = m @ r"
    then obtain r where "c # b = m @ r" ..
    with Cons have "c = x" by simp
    with Cons assms show False by simp
  qed
  then show ?thesis by (rule remove_all_no_match)
qed

lemma remove_all_split:
  assumes c: "c \<notin> set m" and sp: "\<not> is_space c"
  shows "remove_all m (a @ c # b) = remove_all m a @ remove_all m (c # b)"
proof (induction a rule: length_induct)
  case (1 a)
  show ?case
  proof (cases a)
    case Nil
    then show ?thesis by simp
  next
    case (Cons x xs)
    show ?thesis
    proof (cases "m = []")
      case True
      then show ?thesis by (simp add: remove_all_empty_marker)
    next
      case m: False
      show ?thesis
      proof (cases "\<exists>r. a = m @ r")
        case True
        then obtain r where r: "a = m @ r" ..
        have le: "length (dropWhile is_space r) \<le> length r"
          by (rule length_dropWhile_le)
        from m r have lt: "length (dropWhile is_space r) < length a"
          using le by (cases m) simp_all
        from r have "a @ c # b = m @ (r @ c # b)" by simp
        with m have "remove_all m (a @ c # b) = remove_all m (dropWhile is_space (r @ c # b))"
          by (rule remove_all_match)
        also from sp have "dropWhile is_space (r @ c # b) = dropWhile is_space r @ c # b"
          by (rule dropWhile_append3)
        also from 1 lt have "remove_all m (dropWhile is_space r @ c # b) =
            remove_all m (dropWhile is_space r) @ remove_all m (c # b)"
          by blast
        also from m r have "remove_all m (dropWhile is_space r) = remove_all m a"
          by (rule remove_all_match [symmetric])
        finally show ?thesis .
      next
        case False
        have no: "\<nexists>r. x # (xs @ c # b) = m @ r"
        proof
          assume "\<exists>r. x # (xs @ c # b) = m @ r"
          then obtain r where "a @ c # b = m @ r"
            using Cons by auto
          then obtain us where us: "a = m @ us \<and> us @ c # b = r \<or> a @ us = m \<and> c # b = us @ r"
            unfolding append_eq_append_conv2 by blast
          show False
          proof (cases us)
            case Nil
            with us have "a = m @ []" by auto
            with False show False by blast
          next
            case u: (Cons y ys)
            from us False have "a @ us = m" and "c # b = us @ r" by blast+
            with u have "c \<in> set m" by auto
            with c show False by simp
          qed
        qed
        from False Cons have "\<nexists>r. x # xs = m @ r" by simp
        then have "remove_all m a = x # remove_all m xs"
          unfolding Cons by (rule remove_all_no_match)
        moreover from no have "remove_all m (x # (xs @ c # b)) = x # remove_all m (xs @ c # b)"
          by (rule remove_all_no_match)
        moreover from 1 Cons have "remove_all m (xs @ c # b) = remove_all m xs @ remove_all m (c # b)"
          by simp
        ultimately show ?thesis by (simp add: Cons)
      qed
    qed
  qed
qed

lemma remove_all_absent:
  "(\<nexists>u v. s = u @ m @ v) \<Longrightarrow> remove_all m s = s"
proof (induction s)
  case Nil
  then show ?case by simp
next
  case (Cons c cs)
  have "\<nexists>r. c # cs = m @ r"
  proof
    assume "\<exists>r. c # cs = m @ r"
    then obtain r where "c # cs = [] @ m @ r" by auto
    with Cons.prems show False by blast
  qed
  then have r: "remove_all m (c # cs) = c # remove_all m cs"
    by (rule remove_all_no_match)
  have "\<nexists>u v. cs = u @ m @ v"
  proof
    assume "\<exists>u v. cs = u @ m @ v"
    then obtain u v where "cs = u @ m @ v" by blast
    then have "c # cs = (c # u) @ m @ v" by simp
    with Cons.prems show False by blast
  qed
  with Cons.IH r show ?case by simp
qed

lemma remove_all_around_object:
  assumes m: "CHR ''{'' \<notin> set m" "CHR ''}'' \<notin> set m"
    and no: "\<nexists>u v. CHR ''{'' # body = u @ m @ v"
  shows "remove_all m (pre @ (CHR ''{'' # body @ [CHR ''}'']) @ post) =
         remove_all m pre @ (CHR ''{'' # body @ [CHR ''}'']) @ remove_all m post"
proof -
  have sp: "\<not> is_space CHR ''{''" "\<not> is_space CHR ''}''"
    by (simp_all add: is_space_def)
  have "remove_all m (pre @ CHR ''{'' # (body @ CHR ''}'' # post)) =
        remove_all m pre @ remove_all m (CHR ''{'' # (body @ CHR ''}'' # post))"
    using m(1) sp(1) by (rule remove_all_split)
  moreover have "remove_all m ((CHR ''{'' # body) @ CHR ''}'' # post) =
        remove_all m (CHR ''{'' # body) @ remove_all m (CHR ''}'' # post)"
    using m(2) sp(2) by (rule remove_all_split)
  moreover have "remove_all m (CHR ''{'' # body) = CHR ''{'' # body"
    using no by (rule remove_all_absent)
  moreover have "remove_all m (CHR ''}'' # post) = CHR ''}'' # remove_all m post"
    using m(2) by (rule remove_all_head)
  ultimately show ?thesis by simp
qed

lemma set_remove_all: "set (remove_all m s) \<subseteq> set s"
proof (induction s rule: length_induct)
  case (1 s)
  show ?case
  proof (cases s)
    case Nil
    then show ?thesis by simp
  next
    case (Cons c cs)
    show ?thesis
    proof (cases "m \<noteq> [] \<and> (\<exists>r. s = m @ r)")
      case True
      then obtain r where m: "m \<noteq> []" and r: "s = m @ r" by blast
      then have eq: "remove_all m s = remove_all m (dropWhile is_space r)"
        by (intro remove_all_match)
      have "length (dropWhile is_space r) \<le> length r"
        by (rule length_dropWhile_le)
      with m r have "length (dropWhile is_space r) < length s"
        by (cases m) simp_all
      with 1 have "set (remove_all m (dropWhile is_space r)) \<subseteq> set (dropWhile is_space r)"
        by blast
      also have "\<dots> \<subseteq> set r"
        by (auto dest: set_dropWhileD)
      also from r have "\<dots> \<subseteq> set s" by simp
      finally show ?thesis by (simp add: eq)
    next
      case False
      have "remove_all m (c # cs) = c # remove_all m cs"
      proof (cases "m = []")
        case True
        then show ?thesis by (simp add: remove_all_empty_marker)
      next
        case False
        with \<open>\<not> (m \<noteq> [] \<and> (\<exists>r. s = m @ r))\<close> Cons have "\<nexists>r. c # cs = m @ r" by simp
        then show ?thesis by (rule remove_all_no_match)
      qed
      moreover from 1 Cons have "set (remove_all m cs) \<subseteq> set cs" by simp
      ultimately show ?thesis using Cons by auto
    qed
  qed
qed

lemma trim_around:
  assumes "\<not> is_space x" "\<not> is_space y"
  shows "trim (A @ x # mid @ y # B) = dropWhile is_space A @ x # mid @ y # rev (dropWhile is_space (rev B))"
proof -
  from assms(1) have 1: "dropWhile is_space (A @ x # mid @ y # B) = dropWhile is_space A @ x # mid @ y # B"
    by (rule dropWhile_append3)
  have "rev (dropWhile is_space A @ x # mid @ y # B) = rev B @ y # (rev mid @ x # rev (dropWhile is_space A))"
    by simp
  moreover from assms(2) have "dropWhile is_space (rev B @ y # (rev mid @ x # rev (dropWhile is_space A))) =
      dropWhile is_space (rev B) @ y # (rev mid @ x # rev (dropWhile is_space A))"
    by (rule dropWhile_append3)
  ultimately have "trim (A @ x # mid @ y # B) =
      rev (dropWhile is_space (rev B) @ y # (rev mid @ x # rev (dropWhile is_space A)))"
    by (simp only: trim_def 1)
  then show ?thesis by simp
qed

lemma no_fence_inside:
  assumes "\<nexists>u v. CHR ''{'' # body @ ''}'' = u @ ''```'' @ v"
  shows "\<nexists>u v. CHR ''{'' # body = u @ ''```'' @ v"
    and "\<nexists>u v. CHR ''{'' # body = u @ ''```json'' @ v"
proof -
  show "\<nexists>u v. CHR ''{'' # body = u @ ''```'' @ v"
  proof
    assume "\<exists>u v. CHR ''{'' # body = u @ ''```'' @ v"
    then obtain u v where "CHR ''{'' # body = u @ ''```'' @ v" by blast
    then have "CHR ''{'' # body @ ''}'' = u @ ''```'' @ (v @ ''}'')" by simp
    with assms show False by blast
  qed
  show "\<nexists>u v. CHR ''{'' # body = u @ ''```json'' @ v"
  proof
    assume "\<exists>u v. CHR ''{'' # body = u @ ''```json'' @ v"
    then obtain u v where "CHR ''{'' # body = u @ ''```json'' @ v" by blast
    then have "CHR ''{'' # body @ ''}'' = u @ ''```'' @ (''json'' @ v @ ''}'')" by simp
    with assms show False by blast
  qed
qed

lemma strip_code_fences_around_object:
  assumes "\<nexists>u v. CHR ''{'' # body @ ''}'' = u @ ''```'' @ v"
  shows "\<exists>pre' post'. set pre' \<subseteq> set pre \<and>
     strip_code_fences (pre @ (CHR ''{'' # body @ ''}'') @ post) = pre' @ CHR ''{'' # body @ CHR ''}'' # post'"
proof -
  define G where "G = remove_all ''```json''"
  define F where "F = remove_all ''```''"
  have sp: "\<not> is_space CHR ''{''" "\<not> is_space CHR ''}''"
    by (simp_all add: is_space_def)
  have g: "G (pre @ (CHR ''{'' # body @ ''}'') @ post) = G pre @ (CHR ''{'' # body @ ''}'') @ G post"
    unfolding G_def using no_fence_inside(2) [OF assms]
    by (intro remove_all_around_object) simp_all
  have f: "F (G pre @ (CHR ''{'' # body @ ''}'') @ G post) = F (G pre) @ (CHR ''{'' # body @ ''}'') @ F (G post)"
    unfolding F_def using no_fence_inside(1) [OF assms]
    by (intro remove_all_around_object) simp_all
  have "strip_code_fences (pre @ (CHR ''{'' # body @ ''}'') @ post) =
      trim (F (G pre) @ CHR ''{'' # body @ CHR ''}'' # F (G post))"
    using g f by (simp add: strip_code_fences_def G_def F_def)
  also have "\<dots> = dropWhile is_space (F (G pre)) @ CHR ''{'' # body @ CHR ''}'' #
      rev (dropWhile is_space (rev (F (G post))))"
    using sp by (rule trim_around)
  finally have eq: "strip_code_fences (pre @ (CHR ''{'' # body @ ''}'') @ post) =
      dropWhile is_space (F (G pre)) @ CHR ''{'' # body @ CHR ''}'' #
      rev (dropWhile is_space (rev (F (G post))))" .
  have "set (dropWhile is_space (F (G pre))) \<subseteq> set (F (G pre))"
    by (auto dest: set_dropWhileD)
  also have "\<dots> \<subseteq> set (G pre)"
    unfolding F_def by (rule set_remove_all)
  also have "\<dots> \<subseteq> set pre"
    unfolding G_def by (rule set_remove_all)
  finally have "set (dropWhile is_space (F (G pre))) \<subseteq> set pre" .
  with eq show ?thesis by blast
qed

lemma example_body_balanced:
  "balanced (dquote # ''a'' @ dquote # CHR '':'' # CHR '' '' # dquote # ''x{y}z'' @ dquote # [])"
proof -
  have s1: "str_body ''a''"
    by (intro str_body.intros) (simp_all add: dquote_def backslash_def)
  have s2: "str_body ''x{y}z''"
    by (intro str_body.intros) (simp_all add: dquote_def backslash_def)
  have x: "balanced (dquote # ''x{y}z'' @ dquote # [])"
    by (rule bal_string [OF s2 bal_end])
  have y: "balanced (CHR '':'' # CHR '' '' # dquote # ''x{y}z'' @ dquote # [])"
    by (intro bal_char x) (simp_all add: dquote_def)
  show ?thesis
    by (rule bal_string [OF s1 y])
qed

lemma no_backtick_no_fence: "CHR ''`'' \<notin> set s \<Longrightarrow> \<nexists>u v. s = u @ ''```'' @ v"
  by auto

text \<open>
  Claim C4, as the code has it: the scan starts at the first opening brace of the text. When
  no opening brace stands before the object, that is, when the first opening brace of the text
  opens a group whose inside is balanced in the string-aware sense (braces inside quoted
  strings do not count, a backslash inside a string escapes the next character), the scan ends
  at the brace that closes the group, whatever follows, and the substring handed to the parser
  is the group.
\<close>

theorem brace_scan_string_aware:
  "balanced body \<Longrightarrow> CHR ''{'' \<notin> set pre \<Longrightarrow>
   indexOf CHR ''{'' (pre @ CHR ''{'' # body @ CHR ''}'' # post) = int (length pre) \<and>
   brace_scan (drop (length pre) (pre @ CHR ''{'' # body @ CHR ''}'' # post)) (int (length pre)) 0 False False
     = int (length pre) + 1 + int (length body) \<and>
   brace_candidate (pre @ CHR ''{'' # body @ CHR ''}'' # post) = Some (CHR ''{'' # body @ ''}'')"
  using brace_scan_embedded(1,2) [of body pre post] brace_candidate_embedded [of body pre post]
  by simp

text \<open>
  Witness for C4: the object of the specification's example, between noise that has a
  closing brace of its own.
\<close>

theorem brace_scan_string_aware_witness:
  \<open>indexOf CHR ''{'' ''noise {"a": "x{y}z"} more } noise'' = 6 \<and>
   brace_scan ''{"a": "x{y}z"} more } noise'' 6 0 False False = 19 \<and>
   brace_candidate ''noise {"a": "x{y}z"} more } noise'' = Some ''{"a": "x{y}z"}''\<close>
  using brace_scan_string_aware [OF example_body_balanced, of "''noise ''" "'' more } noise''"]
  by (simp add: dquote_def backslash_def)

text \<open>
  Counterexample to C4 as stated: noise with a brace group of its own before the object of the
  specification's example. The scan starts at the brace of the noise (index 4) and ends at
  the brace closing it (index 6), not at the closing brace of the object (index 22); the
  substring handed to the parser is \<^verbatim>\<open>{x}\<close>.
\<close>

theorem brace_scan_first_brace_counterexample:
  \<open>indexOf CHR ''{'' ''Use {x}: {"a": "x{y}z"}'' = 4 \<and>
   brace_scan (drop 4 ''Use {x}: {"a": "x{y}z"}'') 4 0 False False = 6 \<and>
   brace_candidate ''Use {x}: {"a": "x{y}z"}'' = Some ''{x}'' \<and>
   int (length ''Use {x}: {"a": "x{y}z"}'') - 1 = 22\<close>
  by code_simp

text \<open>
  Claim C1, as the code has it. For a text \<open>pre @ obj @ post\<close> where \<open>obj\<close> is an object text
  (an opening brace, a string-aware balanced inside, a closing brace) that the parser accepts
  with value \<open>v\<close>, the extractor returns \<open>v\<close> provided that \<open>obj\<close> contains no triple
  backtick, that \<open>pre\<close> contains no opening brace, and that neither the whole text nor the
  text without fences parses to a different value.
\<close>

theorem extractJson_embedded_object:
  assumes bal: "balanced body"
    and nofence: "\<nexists>u v. CHR ''{'' # body @ ''}'' = u @ ''```'' @ v"
    and pre: "CHR ''{'' \<notin> set pre"
    and pobj: "parse (CHR ''{'' # body @ ''}'') = Inr v"
    and p1: "\<forall>w. parse (pre @ (CHR ''{'' # body @ ''}'') @ post) = Inr w \<longrightarrow> w = v"
    and p2: "\<forall>w. parse (strip_code_fences (pre @ (CHR ''{'' # body @ ''}'') @ post)) = Inr w \<longrightarrow> w = v"
  shows "extractJson parse (pre @ (CHR ''{'' # body @ ''}'') @ post) = v"
proof -
  define inp where "inp = pre @ (CHR ''{'' # body @ ''}'') @ post"
  from strip_code_fences_around_object [OF nofence, of pre post] obtain pre' post' where
    sub: "set pre' \<subseteq> set pre"
    and cl: "strip_code_fences inp = pre' @ CHR ''{'' # body @ CHR ''}'' # post'"
    unfolding inp_def by blast
  from sub pre have "CHR ''{'' \<notin> set pre'" by blast
  with bal have "brace_candidate (pre' @ CHR ''{'' # body @ CHR ''}'' # post') = Some (CHR ''{'' # body @ [CHR ''}''])"
    by (rule brace_candidate_embedded)
  with cl have bc: "brace_candidate (strip_code_fences inp) = Some (CHR ''{'' # body @ ''}'')"
    by simp
  have chain: "extractJson parse inp = first_success parse (attempts inp)"
    by (rule extractJson_chain)
  show ?thesis
  proof (cases "parse inp")
    case (Inr w)
    with p1 have "w = v" by (simp add: inp_def)
    with Inr chain show ?thesis by (simp add: attempts_def Let_def inp_def)
  next
    case t: (Inl e)
    show ?thesis
    proof (cases "parse (strip_code_fences inp)")
      case (Inr w)
      with p2 have "w = v" by (simp add: inp_def)
      with Inr t chain show ?thesis by (simp add: attempts_def Let_def inp_def)
    next
      case (Inl e')
      with t chain bc pobj show ?thesis
        by (simp add: attempts_def Let_def inp_def)
    qed
  qed
qed

text \<open>
  Witness for C1: prose, an opening fence, the object, a closing fence.
\<close>

theorem extractJson_embedded_object_witness:
  \<open>extractJson JSON_parse (''Sure! ```json'' @ [CHR 0x0A] @ ''{"a": "x{y}z"}'' @ [CHR 0x0A] @ ''```'')
     = JObject [(map of_char ''a'', JString (map of_char ''x{y}z''))]\<close>
proof -
  define body where "body = dquote # ''a'' @ dquote # CHR '':'' # CHR '' '' # dquote # ''x{y}z'' @ dquote # []"
  define pre where "pre = ''Sure! ```json'' @ [CHR 0x0A]"
  define post where "post = [CHR 0x0A] @ ''```''"
  define v where "v = JObject [(map of_char ''a'', JString (map of_char ''x{y}z''))]"
  have bal: "balanced body"
    unfolding body_def by (rule example_body_balanced)
  have nf: "\<nexists>u v. CHR ''{'' # body @ ''}'' = u @ ''```'' @ v"
    by (rule no_backtick_no_fence) (simp add: body_def dquote_def)
  have pr: "CHR ''{'' \<notin> set pre"
    by (simp add: pre_def)
  have po: "JSON_parse (CHR ''{'' # body @ ''}'') = Inr v"
    unfolding body_def v_def by code_simp
  have "JSON_parse (pre @ (CHR ''{'' # body @ ''}'') @ post) = Inl SyntaxError"
    unfolding body_def pre_def post_def by code_simp
  then have p1: "\<forall>w. JSON_parse (pre @ (CHR ''{'' # body @ ''}'') @ post) = Inr w \<longrightarrow> w = v"
    by simp
  have "JSON_parse (strip_code_fences (pre @ (CHR ''{'' # body @ ''}'') @ post)) = Inl SyntaxError"
    unfolding body_def pre_def post_def by code_simp
  then have p2: "\<forall>w. JSON_parse (strip_code_fences (pre @ (CHR ''{'' # body @ ''}'') @ post)) = Inr w \<longrightarrow> w = v"
    by simp
  from extractJson_embedded_object [OF bal nf pr po p1 p2] show ?thesis
    by (simp add: body_def pre_def post_def v_def dquote_def)
qed

text \<open>
  Counterexample to C1 as stated: a triple backtick inside a string value is removed before
  the object is parsed, and a brace in the prose before the object makes the scan and the
  regular expression select a text that does not parse.
\<close>

theorem extractJson_embedded_object_counterexample:
  \<open>extractJson JSON_parse ''Answer: {"code": "```x```"}''
     = JObject [(map of_char ''code'', JString (map of_char ''x''))] \<and>
   JSON_parse ''{"code": "```x```"}''
     = Inr (JObject [(map of_char ''code'', JString (map of_char ''```x```''))]) \<and>
   extractJson JSON_parse ''Use {x}: {"a":"b"}'' = JNull \<and>
   JSON_parse ''{"a":"b"}'' = Inr (JObject [(map of_char ''a'', JString (map of_char ''b''))])\<close>
  by code_simp

text \<open>
  Claim C10: the text without fences never contains a triple backtick, wherever it stood in
  the input; every fallback after the first runs on that text: the second parse, the brace
  scan and the regular expression take the text without fences, for every parser and every
  input. On the input shown the fence inside the string value is removed, the scan's
  candidate and the regular expression's match are cut from the text without it (the match
  is what a parser accepting only it would get), and the extractor's value differs from the
  value of the embedded object.
\<close>

theorem fence_stripping_is_global:
  \<open>(\<forall>text u v. strip_code_fences text \<noteq> u @ ''```'' @ v) \<and>
   (\<forall>parse text. extractJson parse text =
      first_success parse
        ([text, strip_code_fences text]
         @ (case brace_candidate (strip_code_fences text) of None \<Rightarrow> [] | Some candidate \<Rightarrow> [candidate])
         @ (case regex_match (strip_code_fences text) of None \<Rightarrow> [] | Some jsonMatch \<Rightarrow> [jsonMatch]))) \<and>
   strip_code_fences ''Here: {"a":"```"} and } more'' = ''Here: {"a":""} and } more'' \<and>
   brace_candidate (strip_code_fences ''Here: {"a":"```"} and } more'') = Some ''{"a":""}'' \<and>
   regex_match (strip_code_fences ''Here: {"a":"```"} and } more'') = Some ''{"a":""} and }'' \<and>
   extractJson JSON_parse ''Here: {"a":"```"} and } more'' = JObject [(map of_char ''a'', JString [])] \<and>
   extractJson (\<lambda>s. if s = ''{"a":""} and }'' then Inr (JBool True) else Inl SyntaxError)
     ''Here: {"a":"```"} and } more'' = JBool True \<and>
   JSON_parse ''{"a":"```"}'' = Inr (JObject [(map of_char ''a'', JString (map of_char ''```''))])\<close>
proof -
  have 1: "\<forall>text u v. strip_code_fences text \<noteq> u @ ''```'' @ v"
    by (intro allI) (rule strip_code_fences_no_fence)
  have 2: "\<forall>parse text. extractJson parse text =
      first_success parse
        ([text, strip_code_fences text]
         @ (case brace_candidate (strip_code_fences text) of None \<Rightarrow> [] | Some candidate \<Rightarrow> [candidate])
         @ (case regex_match (strip_code_fences text) of None \<Rightarrow> [] | Some jsonMatch \<Rightarrow> [jsonMatch]))"
    by (simp add: extractJson_chain attempts_def Let_def)
  have 3: \<open>strip_code_fences ''Here: {"a":"```"} and } more'' = ''Here: {"a":""} and } more''\<close>
    by code_simp
  have 4: \<open>brace_candidate (strip_code_fences ''Here: {"a":"```"} and } more'') = Some ''{"a":""}''\<close>
    by code_simp
  have 5: \<open>regex_match (strip_code_fences ''Here: {"a":"```"} and } more'') = Some ''{"a":""} and }''\<close>
    by code_simp
  have 6: \<open>extractJson JSON_parse ''Here: {"a":"```"} and } more'' = JObject [(map of_char ''a'', JString [])]\<close>
    by code_simp
  have 7: \<open>extractJson (\<lambda>s. if s = ''{"a":""} and }'' then Inr (JBool True) else Inl SyntaxError)
     ''Here: {"a":"```"} and } more'' = JBool True\<close>
    by code_simp
  have 8: \<open>JSON_parse ''{"a":"```"}'' = Inr (JObject [(map of_char ''a'', JString (map of_char ''```''))])\<close>
    by code_simp
  from 1 2 3 4 5 6 7 8 show ?thesis
    by (intro conjI)
qed

text \<open>
  Witness for C10: the fence in the middle of a text is removed.
\<close>

theorem fence_stripping_is_global_witness:
  "strip_code_fences ''a ``` b'' \<noteq> ''a '' @ ''```'' @ '' b''"
proof -
  from fence_stripping_is_global have "\<forall>text u v. strip_code_fences text \<noteq> u @ ''```'' @ v"
    by (rule conjunct1)
  then show ?thesis
    by (elim allE)
qed

text \<open>
  Claim C5, as the code has it. The extractor is a total function: it returns the value of
  the first candidate the parser accepts, in order, and \<^verbatim>\<open>null\<close> when the parser rejects all
  of them. It returns \<^verbatim>\<open>null\<close> only when all are rejected or an accepted candidate is the JSON
  literal \<^verbatim>\<open>null\<close>.
\<close>

theorem extractJson_fallback_chain:
  "extractJson parse text = first_success parse (attempts text) \<and>
   ((\<forall>s\<in>set (attempts text). \<exists>e. parse s = Inl e) \<longrightarrow> extractJson parse text = JNull) \<and>
   (extractJson parse text = JNull \<longrightarrow>
      (\<forall>s\<in>set (attempts text). \<exists>e. parse s = Inl e) \<or> (\<exists>s\<in>set (attempts text). parse s = Inr JNull)) \<and>
   (extractJson parse text \<noteq> JNull \<longrightarrow>
      (\<exists>k<length (attempts text). parse (attempts text ! k) = Inr (extractJson parse text) \<and>
         (\<forall>j<k. \<exists>e. parse (attempts text ! j) = Inl e)))"
proof (intro conjI impI)
  show c: "extractJson parse text = first_success parse (attempts text)"
    by (rule extractJson_chain)
  show "extractJson parse text = JNull" if "\<forall>s\<in>set (attempts text). \<exists>e. parse s = Inl e"
    using that by (simp add: c first_success_all_fail)
  show "(\<forall>s\<in>set (attempts text). \<exists>e. parse s = Inl e) \<or> (\<exists>s\<in>set (attempts text). parse s = Inr JNull)"
    if "extractJson parse text = JNull"
    using that c first_success_null_iff [of parse "attempts text"] by simp
  show "\<exists>k<length (attempts text). parse (attempts text ! k) = Inr (extractJson parse text) \<and>
         (\<forall>j<k. \<exists>e. parse (attempts text ! j) = Inl e)"
    if "extractJson parse text \<noteq> JNull"
    using that c first_success_value [of parse "attempts text" "extractJson parse text"] by simp
qed

text \<open>
  Witness for C5: a text without JSON; both candidates are rejected.
\<close>

theorem extractJson_fallback_chain_witness:
  \<open>attempts ''no json here'' = [''no json here'', ''no json here''] \<and>
   JSON_parse ''no json here'' = Inl SyntaxError \<and>
   extractJson JSON_parse ''no json here'' = JNull\<close>
proof -
  have a: "attempts ''no json here'' = [''no json here'', ''no json here'']"
    by code_simp
  have p: "JSON_parse ''no json here'' = Inl SyntaxError"
    by code_simp
  from extractJson_fallback_chain [of JSON_parse "''no json here''"] a p show ?thesis
    by simp
qed

text \<open>
  Counterexample to C5 as stated: on the text \<^verbatim>\<open>null\<close> the first attempt succeeds and the
  extractor returns \<^verbatim>\<open>null\<close>.
\<close>

theorem extractJson_null_counterexample:
  "extractJson JSON_parse ''null'' = JNull \<and> JSON_parse ''null'' = Inr JNull \<and>
   hd (attempts ''null'') = ''null''"
  by code_simp

end
